theory Spec2Isabelle
  imports Main
begin

section \<open>Data model of \<^verbatim>\<open>api_server.py\<close>\<close>

text \<open>
  JSON values as the request body carries them. The contents of \<^verbatim>\<open>inputs\<close> are
  opaque to the server (\<^verbatim>\<open>Dict[str, Any]\<close>); a float is kept as its literal.
\<close>

datatype json =
    JNull
  | JBool bool
  | JInt int
  | JFloat string
  | JStr string
  | JArr "json list"
  | JObj "(string \<times> json) list"

type_synonym py_dict = "(string \<times> json) list"

text \<open>The dict literal of lines 85 to 88; its key \<^verbatim>\<open>output\<close> is the field \<open>output_text\<close>.\<close>

record task_output =
  output_text :: string
  task_name :: string

text \<open>
  One entry of \<^verbatim>\<open>executions\<close>: the dict literal of lines 124 to 131. The value
  \<^verbatim>\<open>None\<close> of Python is \<open>None\<close>; \<^verbatim>\<open>started_at\<close> is always a string.
\<close>

record execution =
  state :: string
  started_at :: string
  completed_at :: "string option"
  last_executed_task :: "task_output option"
  error :: "string option"
  inputs :: py_dict

text \<open>\<^verbatim>\<open>executions: Dict[str, Dict[str, Any]] = {}\<close> (line 49).\<close>

type_synonym registry = "string \<rightharpoonup> execution"

datatype KickoffRequest = KickoffRequest (request_inputs: py_dict)

datatype KickoffResponse =
  KickoffResponse (kickoff_id: string) (status: string) (message: string)

datatype StatusResponse =
  StatusResponse
    (resp_state: string)
    (resp_last_executed_task: "task_output option")
    (resp_started_at: "string option")
    (resp_completed_at: "string option")
    (resp_error: "string option")

text \<open>
  Exceptions. \<open>Exception m\<close> is an instance of Python's class \<^verbatim>\<open>Exception\<close> whose
  \<^verbatim>\<open>str\<close> is \<open>m\<close>; \<open>BaseException m\<close> is one that is not (\<^verbatim>\<open>SystemExit\<close>,
  \<^verbatim>\<open>KeyboardInterrupt\<close>, \<^verbatim>\<open>GeneratorExit\<close>), which \<^verbatim>\<open>except Exception\<close> does
  not catch.
\<close>

datatype py_exception = Exception string | BaseException string

fun str_exception :: "py_exception \<Rightarrow> string" where
  "str_exception (Exception m) = m"
| "str_exception (BaseException m) = m"

text \<open>
  \<^verbatim>\<open>str(KeyError(k))\<close> is \<^verbatim>\<open>repr(k)\<close>. A character is a code point below 256. \<^verbatim>\<open>repr\<close> of
  a string puts it in single quotes, or in double quotes when it holds a single quote
  and no double quote; it escapes that quote and the backslash with a backslash, writes
  tab, newline and carriage return as \<^verbatim>\<open>\t\<close>, \<^verbatim>\<open>\n\<close>, \<^verbatim>\<open>\r\<close>, and every other code
  point that is not printable (below 32, from 127 to 160, and 173) as \<^verbatim>\<open>\xhh\<close>.
\<close>

definition hex_digit :: "nat \<Rightarrow> char" where
  "hex_digit n = ''0123456789abcdef'' ! (n mod 16)"

definition repr_char :: "char \<Rightarrow> char \<Rightarrow> string" where
  "repr_char q c =
     (let n = (of_char c :: nat) in
      if c = q \<or> c = CHR 0x5C then [CHR 0x5C, c]
      else if c = CHR 0x09 then [CHR 0x5C, CHR ''t'']
      else if c = CHR 0x0A then [CHR 0x5C, CHR ''n'']
      else if c = CHR 0x0D then [CHR 0x5C, CHR ''r'']
      else if n < 32 \<or> (127 \<le> n \<and> n \<le> 160) \<or> n = 173
        then [CHR 0x5C, CHR ''x'', hex_digit (n div 16), hex_digit n]
      else [c])"

definition py_repr :: "string \<Rightarrow> string" where
  "py_repr k =
     (let q = (if CHR 0x27 \<in> set k \<and> CHR 0x22 \<notin> set k then CHR 0x22 else CHR 0x27)
      in [q] @ concat (map (repr_char q) k) @ [q])"

definition KeyError :: "string \<Rightarrow> py_exception" where
  "KeyError k = Exception (py_repr k)"

text \<open>
  What the workflow returns: an opaque object, seen through the conversions of line 86.
  A conversion returns a text (\<open>Inr t\<close>) or raises (\<open>Inl e\<close>). \<open>raw\<close> is \<open>None\<close> when
  \<^verbatim>\<open>hasattr(result, 'raw')\<close> is false, and otherwise what evaluating
  \<^verbatim>\<open>hasattr(result, 'raw')\<close> and then \<^verbatim>\<open>str(result.raw)\<close> does; \<open>str_result\<close> is what
  \<^verbatim>\<open>str(result)\<close> does.
\<close>

type_synonym conversion = "py_exception + string"

datatype crew_output = CrewOutput (raw: "conversion option") (str_result: conversion)

text \<open>
  Lines 79 and 80, the construction of the crew and its \<^verbatim>\<open>kickoff\<close>: the one opaque
  call of the worker. It returns an output or raises.
\<close>

datatype outcome = Returns crew_output | Raises py_exception

section \<open>The worker \<^verbatim>\<open>run_crew_async\<close>, statement by statement\<close>

text \<open>
  The worker runs on a thread of its own while the handlers run on the event loop, and
  the source takes no lock; so the worker is modelled one statement at a time. A program
  point \<open>Ln\<close> means: the statement of line \<open>n\<close> is the next to run. The points after
  line 80 carry the local \<^verbatim>\<open>result\<close>, the points of the handler the local \<^verbatim>\<open>e\<close>.
  \<open>Returned\<close>: the function has returned. \<open>Uncaught e\<close>: \<open>e\<close> has left the function.
\<close>

datatype worker_pc =
    L76
  | L79
  | L83 crew_output
  | L84 crew_output
  | L85 crew_output
  | L91 py_exception
  | L92 py_exception
  | L93 py_exception
  | Returned
  | Uncaught py_exception

text \<open>
  \<^verbatim>\<open>executions[kickoff_id][field] = v\<close>: the lookup of the key raises \<^verbatim>\<open>KeyError\<close>
  (here \<open>None\<close>) when it is absent; the store mutates the dict found.
\<close>

definition set_item :: "registry \<Rightarrow> string \<Rightarrow> (execution \<Rightarrow> execution) \<Rightarrow> registry option" where
  "set_item ex k f = (case ex k of None \<Rightarrow> None | Some r \<Rightarrow> Some (ex(k \<mapsto> f r)))"

text \<open>A store inside the \<^verbatim>\<open>try\<close> block: a \<^verbatim>\<open>KeyError\<close> enters the handler at line 91.\<close>

definition in_try :: "registry \<Rightarrow> string \<Rightarrow> (execution \<Rightarrow> execution) \<Rightarrow> worker_pc \<Rightarrow> registry \<times> worker_pc" where
  "in_try ex k f next_pc =
     (case set_item ex k f of
        Some ex' \<Rightarrow> (ex', next_pc)
      | None \<Rightarrow> (ex, L91 (KeyError k)))"

text \<open>A store inside the handler: a \<^verbatim>\<open>KeyError\<close> there leaves the function.\<close>

definition in_except :: "registry \<Rightarrow> string \<Rightarrow> (execution \<Rightarrow> execution) \<Rightarrow> worker_pc \<Rightarrow> registry \<times> worker_pc" where
  "in_except ex k f next_pc =
     (case set_item ex k f of
        Some ex' \<Rightarrow> (ex', next_pc)
      | None \<Rightarrow> (ex, Uncaught (KeyError k)))"

text \<open>Line 86: \<^verbatim>\<open>str(result.raw) if hasattr(result, 'raw') else str(result)\<close>.\<close>

definition output_of :: "crew_output \<Rightarrow> conversion" where
  "output_of res = (case raw res of Some c \<Rightarrow> c | None \<Rightarrow> str_result res)"

text \<open>
  One statement of \<^verbatim>\<open>run_crew_async(kickoff_id, inputs)\<close>. \<open>oc\<close> is what the workflow
  does if this step is the call of lines 79 and 80, \<open>now\<close> what
  \<^verbatim>\<open>datetime.now().isoformat()\<close> gives if this step reads the clock. In the statement of
  lines 85 to 88 the dict is built first: a conversion of line 86 that raises does so
  before the store, still inside the \<^verbatim>\<open>try\<close>, and after lines 83 and 84 have run. The
  clock and the \<^verbatim>\<open>str(e)\<close> of line 92 are taken to return. The \<^verbatim>\<open>print\<close> of line 94 does
  not touch the registry and is run together with line 93.
\<close>

fun run_crew_async_step ::
  "outcome \<Rightarrow> string \<Rightarrow> string \<Rightarrow> worker_pc \<Rightarrow> registry \<Rightarrow> registry \<times> worker_pc" where
  "run_crew_async_step oc now k L76 ex =
     in_try ex k (\<lambda>r. r\<lparr>state := ''RUNNING''\<rparr>) L79"
| "run_crew_async_step oc now k L79 ex =
     (case oc of
        Returns res \<Rightarrow> (ex, L83 res)
      | Raises (Exception m) \<Rightarrow> (ex, L91 (Exception m))
      | Raises (BaseException m) \<Rightarrow> (ex, Uncaught (BaseException m)))"
| "run_crew_async_step oc now k (L83 res) ex =
     in_try ex k (\<lambda>r. r\<lparr>state := ''SUCCESS''\<rparr>) (L84 res)"
| "run_crew_async_step oc now k (L84 res) ex =
     in_try ex k (\<lambda>r. r\<lparr>completed_at := Some now\<rparr>) (L85 res)"
| "run_crew_async_step oc now k (L85 res) ex =
     (case output_of res of
        Inr t \<Rightarrow>
          in_try ex k
            (\<lambda>r. r\<lparr>last_executed_task :=
                      Some \<lparr>output_text = t, task_name = ''final_output_assembly''\<rparr>\<rparr>)
            Returned
      | Inl (Exception m) \<Rightarrow> (ex, L91 (Exception m))
      | Inl (BaseException m) \<Rightarrow> (ex, Uncaught (BaseException m)))"
| "run_crew_async_step oc now k (L91 e) ex =
     in_except ex k (\<lambda>r. r\<lparr>state := ''FAILED''\<rparr>) (L92 e)"
| "run_crew_async_step oc now k (L92 e) ex =
     in_except ex k (\<lambda>r. r\<lparr>error := Some (str_exception e)\<rparr>) (L93 e)"
| "run_crew_async_step oc now k (L93 e) ex =
     in_except ex k (\<lambda>r. r\<lparr>completed_at := Some now\<rparr>) Returned"
| "run_crew_async_step oc now k Returned ex = (ex, Returned)"
| "run_crew_async_step oc now k (Uncaught e) ex = (ex, Uncaught e)"

text \<open>
  A started \<^verbatim>\<open>threading.Thread(target=run_crew_async, args=(kickoff_id, inputs))\<close>:
  its two arguments and its program point.
\<close>

datatype thread = Thread (thread_id: string) (thread_inputs: py_dict) (thread_pc: worker_pc)

section \<open>The handler \<^verbatim>\<open>get_status\<close>\<close>

datatype http_error = HTTPException nat string | Internal_Server_Error py_exception

text \<open>The handler run without interruption, as the source reads.\<close>

definition get_status :: "registry \<Rightarrow> string \<Rightarrow> http_error + StatusResponse" where
  "get_status ex k =
     (case ex k of
        None \<Rightarrow> Inl (HTTPException 404 ''Execution not found'')
      | Some execution \<Rightarrow>
          Inr (StatusResponse
                 (state execution)
                 (last_executed_task execution)
                 (Some (started_at execution))
                 (completed_at execution)
                 (error execution)))"

text \<open>
  The same handler one read at a time, since a worker may write between two reads:
  the membership test of line 161, the lookup of line 164 and the five reads of lines
  167 to 171, each on the registry of its moment. A program point carries the values
  read so far. After line 164 the local \<^verbatim>\<open>execution\<close> is the dict stored under the
  key: no statement of the source removes an entry, and as long as the identifiers
  drawn are fresh none is replaced, so reading through the local and reading through
  the registry agree. A read of a missing entry is given the unhandled \<^verbatim>\<open>KeyError\<close>
  of line 164.
\<close>

datatype handler_pc =
    L161
  | L164
  | L167
  | L168 string
  | L169 string "task_output option"
  | L170 string "task_output option" string
  | L171 string "task_output option" string "string option"
  | Responded "http_error + StatusResponse"

definition read_item :: "registry \<Rightarrow> string \<Rightarrow> (execution \<Rightarrow> handler_pc) \<Rightarrow> handler_pc" where
  "read_item ex k f =
     (case ex k of
        None \<Rightarrow> Responded (Inl (Internal_Server_Error (KeyError k)))
      | Some r \<Rightarrow> f r)"

fun get_status_step :: "registry \<Rightarrow> string \<Rightarrow> handler_pc \<Rightarrow> handler_pc" where
  "get_status_step ex k L161 =
     (if ex k = None then Responded (Inl (HTTPException 404 ''Execution not found''))
      else L164)"
| "get_status_step ex k L164 = read_item ex k (\<lambda>r. L167)"
| "get_status_step ex k L167 = read_item ex k (\<lambda>r. L168 (state r))"
| "get_status_step ex k (L168 st) = read_item ex k (\<lambda>r. L169 st (last_executed_task r))"
| "get_status_step ex k (L169 st t) = read_item ex k (\<lambda>r. L170 st t (started_at r))"
| "get_status_step ex k (L170 st t sa) = read_item ex k (\<lambda>r. L171 st t sa (completed_at r))"
| "get_status_step ex k (L171 st t sa ca) =
     read_item ex k (\<lambda>r. Responded (Inr (StatusResponse st t (Some sa) ca (error r))))"
| "get_status_step ex k (Responded resp) = Responded resp"

datatype handler = Handler (handler_id: string) (handler_pc: handler_pc)

section \<open>The server: registry, worker threads, status handlers in flight\<close>

record system =
  executions :: registry
  threads :: "thread list"
  handlers :: "handler list"

definition init :: system where
  "init = \<lparr>executions = Map.empty, threads = [], handlers = []\<rparr>"

text \<open>
  \<^verbatim>\<open>kickoff\<close> (lines 104 to 145). \<open>uuid\<close> is what \<^verbatim>\<open>str(uuid.uuid4())\<close> returns and
  \<open>now\<close> what \<^verbatim>\<open>datetime.now().isoformat()\<close> returns. The record is stored (line 124)
  and then the thread is started (line 139); the store replaces whatever the key held.
\<close>

definition create_execution :: "string \<Rightarrow> string \<Rightarrow> py_dict \<Rightarrow> system \<Rightarrow> system" where
  "create_execution uuid now inp s =
     s\<lparr>executions := (executions s)(uuid \<mapsto>
          \<lparr>state = ''PENDING'', started_at = now, completed_at = None,
           last_executed_task = None, error = None, inputs = inp\<rparr>)\<rparr>"

definition start_thread :: "string \<Rightarrow> py_dict \<Rightarrow> system \<Rightarrow> system" where
  "start_thread uuid inp s = s\<lparr>threads := threads s @ [Thread uuid inp L76]\<rparr>"

definition kickoff :: "string \<Rightarrow> string \<Rightarrow> KickoffRequest \<Rightarrow> system \<Rightarrow> KickoffResponse \<times> system" where
  "kickoff uuid now request s =
     (KickoffResponse uuid ''PENDING'' ''Crew execution started'',
      start_thread uuid (request_inputs request)
        (create_execution uuid now (request_inputs request) s))"

text \<open>
  What can happen next in the process: a \<^verbatim>\<open>POST /kickoff\<close> is handled (the handler
  has no \<^verbatim>\<open>await\<close>, and no other thread refers to the entry it creates, so it is one
  event); worker thread \<open>i\<close> runs its next statement; a \<^verbatim>\<open>GET /status/{kickoff_id}\<close>
  arrives; status handler \<open>i\<close> does its next read.
\<close>

datatype event =
    Kickoff string string KickoffRequest
  | Worker nat outcome string
  | Status string
  | Read nat

fun step :: "event \<Rightarrow> system \<Rightarrow> system" where
  "step (Kickoff uuid now request) s = snd (kickoff uuid now request s)"
| "step (Worker i oc now) s =
     (if i < length (threads s) then
        (case threads s ! i of
           Thread k inp pc \<Rightarrow>
             (case run_crew_async_step oc now k pc (executions s) of
                (ex', pc') \<Rightarrow>
                  s\<lparr>executions := ex', threads := (threads s)[i := Thread k inp pc']\<rparr>))
      else s)"
| "step (Status k) s = s\<lparr>handlers := handlers s @ [Handler k L161]\<rparr>"
| "step (Read i) s =
     (if i < length (handlers s) then
        (case handlers s ! i of
           Handler k pc \<Rightarrow>
             s\<lparr>handlers := (handlers s)[i := Handler k (get_status_step (executions s) k pc)]\<rparr>)
      else s)"

fun run :: "event list \<Rightarrow> system \<Rightarrow> system" where
  "run [] s = s"
| "run (e # evs) s = run evs (step e s)"

text \<open>
  The one assumption on the environment: \<^verbatim>\<open>uuid.uuid4()\<close> never returns an
  identifier that the registry already holds.
\<close>

fun event_ok :: "system \<Rightarrow> event \<Rightarrow> bool" where
  "event_ok s (Kickoff uuid now request) = (executions s uuid = None)"
| "event_ok s e = True"

fun admissible :: "system \<Rightarrow> event list \<Rightarrow> bool" where
  "admissible s [] = True"
| "admissible s (e # evs) = (event_ok s e \<and> admissible (step e s) evs)"

section \<open>Invariants of the reachable states\<close>

text \<open>
  What the entry of a job holds when its worker is at a given program point: read off
  the statements of \<^verbatim>\<open>run_crew_async\<close> in their order. The handler is entered from the
  call (state RUNNING, nothing set) or from line 86 (state SUCCESS, \<^verbatim>\<open>completed_at\<close> set).
\<close>

fun record_at :: "worker_pc \<Rightarrow> execution \<Rightarrow> bool" where
  "record_at L76 r =
     (state r = ''PENDING'' \<and> completed_at r = None \<and> last_executed_task r = None \<and> error r = None)"
| "record_at L79 r =
     (state r = ''RUNNING'' \<and> completed_at r = None \<and> last_executed_task r = None \<and> error r = None)"
| "record_at (L83 res) r =
     (state r = ''RUNNING'' \<and> completed_at r = None \<and> last_executed_task r = None \<and> error r = None)"
| "record_at (L84 res) r =
     (state r = ''SUCCESS'' \<and> completed_at r = None \<and> last_executed_task r = None \<and> error r = None)"
| "record_at (L85 res) r =
     (state r = ''SUCCESS'' \<and> completed_at r \<noteq> None \<and> last_executed_task r = None \<and> error r = None)"
| "record_at (L91 e) r =
     ((state r = ''RUNNING'' \<and> completed_at r = None
         \<or> state r = ''SUCCESS'' \<and> completed_at r \<noteq> None)
      \<and> last_executed_task r = None \<and> error r = None)"
| "record_at (L92 e) r =
     (state r = ''FAILED'' \<and> last_executed_task r = None \<and> error r = None)"
| "record_at (L93 e) r =
     (state r = ''FAILED'' \<and> last_executed_task r = None \<and> error r = Some (str_exception e))"
| "record_at Returned r =
     (completed_at r \<noteq> None \<and>
       (if state r = ''SUCCESS'' then last_executed_task r \<noteq> None \<and> error r = None
        else state r = ''FAILED'' \<and> last_executed_task r = None \<and> error r \<noteq> None))"
| "record_at (Uncaught e) r =
     ((state r = ''RUNNING'' \<and> completed_at r = None
         \<or> state r = ''SUCCESS'' \<and> completed_at r \<noteq> None)
      \<and> last_executed_task r = None \<and> error r = None)"

definition thread_ok :: "registry \<Rightarrow> thread \<Rightarrow> bool" where
  "thread_ok ex t = (case ex (thread_id t) of None \<Rightarrow> False | Some r \<Rightarrow> record_at (thread_pc t) r)"

definition registry_inv :: "system \<Rightarrow> bool" where
  "registry_inv s =
     (distinct (map thread_id (threads s))
      \<and> dom (executions s) = set (map thread_id (threads s))
      \<and> list_all (thread_ok (executions s)) (threads s))"

text \<open>The identifiers issued along a sequence of events.\<close>

fun kickoff_ids :: "event list \<Rightarrow> string list" where
  "kickoff_ids [] = []"
| "kickoff_ids (Kickoff uuid now request # evs) = uuid # kickoff_ids evs"
| "kickoff_ids (e # evs) = kickoff_ids evs"

text \<open>
  How one event may change an entry: the state stays or follows an edge of the state
  machine (that from SUCCESS to FAILED is the handler entered from line 86), and a
  result or an error that is set is not written again.
\<close>

definition moves :: "execution \<Rightarrow> execution \<Rightarrow> bool" where
  "moves r r' =
     (started_at r' = started_at r \<and> inputs r' = inputs r
      \<and> (state r' = state r
           \<or> (state r, state r') \<in>
               {(''PENDING'', ''RUNNING''), (''RUNNING'', ''SUCCESS''), (''RUNNING'', ''FAILED''),
                (''SUCCESS'', ''FAILED'')})
      \<and> (last_executed_task r \<noteq> None \<longrightarrow> last_executed_task r' = last_executed_task r)
      \<and> (error r \<noteq> None \<longrightarrow> error r' = error r))"

text \<open>The number of statements that worker thread \<open>i\<close> runs in a sequence of events.\<close>

fun own_steps :: "nat \<Rightarrow> event list \<Rightarrow> nat" where
  "own_steps i [] = 0"
| "own_steps i (Worker j oc now # evs) =
     (if j = i then Suc (own_steps i evs) else own_steps i evs)"
| "own_steps i (e # evs) = own_steps i evs"

text \<open>
  Where a worker is \<open>n\<close> statements after it entered its handler with \<open>e\<close>, and \<open>n\<close>
  statements after its call of the workflow ended with \<open>oc\<close>; and what its entry holds
  once it has returned.
\<close>

fun handler_path :: "py_exception \<Rightarrow> nat \<Rightarrow> worker_pc" where
  "handler_path (Exception m) n =
     (if n = 0 then L91 (Exception m) else if n = 1 then L92 (Exception m)
      else if n = 2 then L93 (Exception m) else Returned)"
| "handler_path (BaseException m) n = Uncaught (BaseException m)"

fun after_call :: "outcome \<Rightarrow> nat \<Rightarrow> worker_pc" where
  "after_call (Raises e) n = handler_path e n"
| "after_call (Returns res) n =
     (if n = 0 then L83 res else if n = 1 then L84 res else if n = 2 then L85 res
      else (case output_of res of Inr t \<Rightarrow> Returned | Inl e \<Rightarrow> handler_path e (n - 3)))"

definition failed_record :: "py_exception \<Rightarrow> execution \<Rightarrow> bool" where
  "failed_record e r =
     (state r = ''FAILED'' \<and> error r = Some (str_exception e)
      \<and> last_executed_task r = None \<and> completed_at r \<noteq> None)"

fun final_record :: "outcome \<Rightarrow> execution \<Rightarrow> bool" where
  "final_record (Raises e) r = failed_record e r"
| "final_record (Returns res) r =
     (case output_of res of
        Inr t \<Rightarrow>
          state r = ''SUCCESS''
          \<and> last_executed_task r =
              Some \<lparr>output_text = t, task_name = ''final_output_assembly''\<rparr>
          \<and> error r = None \<and> completed_at r \<noteq> None
      | Inl e \<Rightarrow> failed_record e r)"





text \<open>
  The proviso under which line 86 cannot raise: every output that the workflow returns
  along the run converts to a text.
\<close>

fun event_converts :: "event \<Rightarrow> bool" where
  "event_converts (Worker i (Returns res) now) =
     (case output_of res of Inr t \<Rightarrow> True | Inl e \<Rightarrow> False)"
| "event_converts e = True"

definition conversions_return :: "event list \<Rightarrow> bool" where
  "conversions_return evs = list_all event_converts evs"

text \<open>
  Under that proviso: an output a worker holds converts, and a worker is in its handler
  only from the call, so with the state RUNNING at line 91 and \<^verbatim>\<open>completed_at\<close> unset
  at lines 92 and 93.
\<close>

fun clean_at :: "worker_pc \<Rightarrow> execution \<Rightarrow> bool" where
  "clean_at (L83 res) r = (case output_of res of Inr t \<Rightarrow> True | Inl e \<Rightarrow> False)"
| "clean_at (L84 res) r = (case output_of res of Inr t \<Rightarrow> True | Inl e \<Rightarrow> False)"
| "clean_at (L85 res) r = (case output_of res of Inr t \<Rightarrow> True | Inl e \<Rightarrow> False)"
| "clean_at (L91 e) r = (state r = ''RUNNING'')"
| "clean_at (L92 e) r = (completed_at r = None)"
| "clean_at (L93 e) r = (completed_at r = None)"
| "clean_at (Uncaught e) r = (state r = ''RUNNING'')"
| "clean_at pc r = True"

definition clean_thread :: "registry \<Rightarrow> thread \<Rightarrow> bool" where
  "clean_thread ex t =
     (case ex (thread_id t) of None \<Rightarrow> True | Some r \<Rightarrow> clean_at (thread_pc t) r)"

definition clean_inv :: "system \<Rightarrow> bool" where
  "clean_inv s = list_all (clean_thread (executions s)) (threads s)"

text \<open>
  What a status handler has read so far, against the entry as it is now: a state FAILED
  it has read is still the state, and a result it has read is still in the entry.
\<close>

fun reads_at :: "handler_pc \<Rightarrow> execution \<Rightarrow> bool" where
  "reads_at (L168 st) r = (st = ''FAILED'' \<longrightarrow> state r = ''FAILED'')"
| "reads_at (L169 st t) r =
     ((st = ''FAILED'' \<longrightarrow> state r = ''FAILED'')
      \<and> (t \<noteq> None \<longrightarrow> last_executed_task r \<noteq> None))"
| "reads_at (L170 st t sa) r =
     ((st = ''FAILED'' \<longrightarrow> state r = ''FAILED'')
      \<and> (t \<noteq> None \<longrightarrow> last_executed_task r \<noteq> None))"
| "reads_at (L171 st t sa ca) r =
     ((st = ''FAILED'' \<longrightarrow> state r = ''FAILED'')
      \<and> (t \<noteq> None \<longrightarrow> last_executed_task r \<noteq> None))"
| "reads_at pc r = True"

text \<open>What holds of every answer of a status handler, however its reads are interleaved.\<close>

definition response_ok :: "StatusResponse \<Rightarrow> bool" where
  "response_ok resp =
     (\<not> (resp_last_executed_task resp \<noteq> None \<and> resp_error resp \<noteq> None)
      \<and> (resp_state resp = ''FAILED'' \<longrightarrow> resp_last_executed_task resp = None))"

fun handler_ok :: "registry \<Rightarrow> handler \<Rightarrow> bool" where
  "handler_ok ex (Handler k L161) = True"
| "handler_ok ex (Handler k (Responded (Inl e))) = True"
| "handler_ok ex (Handler k (Responded (Inr resp))) = response_ok resp"
| "handler_ok ex (Handler k pc) = (case ex k of None \<Rightarrow> False | Some r \<Rightarrow> reads_at pc r)"

definition handlers_inv :: "system \<Rightarrow> bool" where
  "handlers_inv s = list_all (handler_ok (executions s)) (handlers s)"

section \<open>The HTTP boundary of \<^verbatim>\<open>POST /kickoff\<close>\<close>

text \<open>
  Modelled from the spec: the validation of the request body against the declared model
  \<^verbatim>\<open>KickoffRequest\<close> (its one field is \<^verbatim>\<open>inputs: Dict[str, Any]\<close>, lines 52 to 54) is done
  by the web framework before the handler \<^verbatim>\<open>kickoff\<close> is called; the framework's code is
  not among the sources. Following the spec (request body \<^verbatim>\<open>{ "inputs": { ... } }\<close>, a
  malformed payload is rejected before a record is created and no identifier is
  issued), a body is valid when it is a JSON object whose member \<^verbatim>\<open>inputs\<close> is a JSON
  object; the contents of that object are not looked at and other members are ignored.
  \<open>inputs_field\<close> is the member \<^verbatim>\<open>inputs\<close> of the body (the last one, should the name be
  repeated), \<open>None\<close> when there is none.
\<close>

definition inputs_field :: "json \<Rightarrow> json option" where
  "inputs_field body = (case body of JObj members \<Rightarrow> map_of (rev members) ''inputs'' | _ \<Rightarrow> None)"

definition parse_KickoffRequest :: "json \<Rightarrow> KickoffRequest option" where
  "parse_KickoffRequest body =
     (case inputs_field body of
        Some (JObj d) \<Rightarrow> Some (KickoffRequest d)
      | _ \<Rightarrow> None)"

datatype validation_failure = Validation_failure

text \<open>
  Modelled from the spec: the endpoint as the framework runs it. An invalid body is
  answered with a validation failure and the handler is not called, so neither
  \<^verbatim>\<open>uuid4\<close> nor the registry is touched; a valid body is handed to \<^verbatim>\<open>kickoff\<close>.
\<close>

definition post_kickoff ::
  "json \<Rightarrow> string \<Rightarrow> string \<Rightarrow> system \<Rightarrow> (validation_failure + KickoffResponse) \<times> system" where
  "post_kickoff body uuid now s =
     (case parse_KickoffRequest body of
        None \<Rightarrow> (Inl Validation_failure, s)
      | Some request \<Rightarrow>
          (case kickoff uuid now request s of (resp, s') \<Rightarrow> (Inr resp, s')))"

section \<open>Concrete runs\<close>


definition one_job :: "event list" where
  "one_job = [Worker 0 (Returns (CrewOutput None (Inr ''x''))) ''t2'']"


definition succeeded_job :: "event list" where
  "succeeded_job =
     [Kickoff ''a1'' ''t0'' (KickoffRequest []),
      Worker 0 (Returns (CrewOutput (Some (Inr ''ok'')) (Inr ''obj''))) ''t1'',
      Worker 0 (Returns (CrewOutput (Some (Inr ''ok'')) (Inr ''obj''))) ''t2'',
      Worker 0 (Returns (CrewOutput (Some (Inr ''ok'')) (Inr ''obj''))) ''t3'',
      Worker 0 (Returns (CrewOutput (Some (Inr ''ok'')) (Inr ''obj''))) ''t4'',
      Worker 0 (Returns (CrewOutput (Some (Inr ''ok'')) (Inr ''obj''))) ''t5'']"

definition started_job :: "event list" where
  "started_job =
     [Kickoff ''a1'' ''t0'' (KickoffRequest []),
      Worker 0 (Returns (CrewOutput None (Inr ''x''))) ''t1'']"

definition three_steps :: "event list" where
  "three_steps =
     [Worker 0 (Returns (CrewOutput None (Inr ''x''))) ''t3'',
      Status ''a1'',
      Worker 0 (Returns (CrewOutput None (Inr ''x''))) ''t4'',
      Worker 0 (Returns (CrewOutput None (Inr ''x''))) ''t5'']"

text \<open>Concrete runs: a job whose output does not convert, to the end of its worker.\<close>

definition unconvertible_job :: "event list" where
  "unconvertible_job =
     [Kickoff ''a1'' ''t0'' (KickoffRequest []),
      Worker 0 (Returns (CrewOutput (Some (Inl (Exception ''bad''))) (Inr ''obj''))) ''t1'',
      Worker 0 (Returns (CrewOutput (Some (Inl (Exception ''bad''))) (Inr ''obj''))) ''t2'',
      Worker 0 (Returns (CrewOutput (Some (Inl (Exception ''bad''))) (Inr ''obj''))) ''t3'',
      Worker 0 (Returns (CrewOutput (Some (Inl (Exception ''bad''))) (Inr ''obj''))) ''t4'',
      Worker 0 (Returns (CrewOutput (Some (Inl (Exception ''bad''))) (Inr ''obj''))) ''t5'',
      Worker 0 (Returns (CrewOutput (Some (Inl (Exception ''bad''))) (Inr ''obj''))) ''t6'',
      Worker 0 (Returns (CrewOutput (Some (Inl (Exception ''bad''))) (Inr ''obj''))) ''t7'',
      Worker 0 (Returns (CrewOutput (Some (Inl (Exception ''bad''))) (Inr ''obj''))) ''t8'']"

section \<open>Lemmas\<close>

lemma inv_init: "registry_inv init"
  by (simp add: registry_inv_def init_def)

lemma worker_step_the:
  assumes "ex k = Some r" and "record_at pc r"
    and "run_crew_async_step oc now k pc ex = (ex', pc')"
  shows "ex' = ex(k \<mapsto> the (ex' k)) \<and> record_at pc' (the (ex' k)) \<and> moves r (the (ex' k))"
proof -
  have same: "ex = ex(k \<mapsto> r)"
    using assms(1) by (simp add: map_upd_triv)
  show ?thesis
  proof (cases pc)
    case L79
    with assms same show ?thesis
      by (cases oc) (auto simp: moves_def split: py_exception.splits)
  next
    case (L85 res)
    show ?thesis
    proof (cases "output_of res")
      case (Inr t)
      with L85 assms show ?thesis
        by (auto simp: in_try_def set_item_def moves_def)
    next
      case (Inl e)
      with L85 assms same show ?thesis
        by (cases e) (auto simp: moves_def)
    qed
  next
    case Returned
    with assms same show ?thesis by (auto simp: moves_def)
  next
    case (Uncaught e)
    with assms same show ?thesis by (auto simp: moves_def)
  qed (use assms in \<open>auto simp: in_try_def in_except_def set_item_def moves_def\<close>)
qed

lemma worker_step_record:
  assumes "ex k = Some r" and "record_at pc r"
    and "run_crew_async_step oc now k pc ex = (ex', pc')"
  shows "\<exists>r'. ex' = ex(k \<mapsto> r') \<and> record_at pc' r' \<and> moves r r'"
  using worker_step_the[OF assms] by blast

lemma set_item_frame: "set_item ex k f = Some ex' \<Longrightarrow> k' \<noteq> k \<Longrightarrow> ex' k' = ex k'"
  by (auto simp: set_item_def split: option.splits)

lemma in_try_frame: "in_try ex k f pc = (ex', pc') \<Longrightarrow> k' \<noteq> k \<Longrightarrow> ex' k' = ex k'"
  by (auto simp: in_try_def set_item_frame split: option.splits)

lemma in_except_frame: "in_except ex k f pc = (ex', pc') \<Longrightarrow> k' \<noteq> k \<Longrightarrow> ex' k' = ex k'"
  by (auto simp: in_except_def set_item_frame split: option.splits)

text \<open>A statement of a worker changes no entry but the one under its own identifier.\<close>

lemma worker_step_frame:
  assumes "run_crew_async_step oc now k pc ex = (ex', pc')" and "k' \<noteq> k"
  shows "ex' k' = ex k'"
  using assms
  by (cases pc)
     (auto simp: in_try_frame in_except_frame
           split: outcome.splits py_exception.splits sum.splits)

lemma map_thread_id_update:
  "i < length ts \<Longrightarrow> thread_id (ts ! i) = k \<Longrightarrow>
     map thread_id (ts[i := Thread k inp pc]) = map thread_id ts"
  by (simp add: map_update list_update_same_conv)

lemma inv_step_worker:
  assumes "registry_inv s"
  shows "registry_inv (step (Worker i oc now) s)"
proof (cases "i < length (threads s)")
  case False
  with assms show ?thesis by simp
next
  case True
  obtain k inp pc where t: "threads s ! i = Thread k inp pc"
    by (cases "threads s ! i") auto
  obtain ex' pc' where st: "run_crew_async_step oc now k pc (executions s) = (ex', pc')"
    by (cases "run_crew_async_step oc now k pc (executions s)") auto
  have mem: "Thread k inp pc \<in> set (threads s)"
    using True t by (metis nth_mem)
  from assms have ok: "thread_ok (executions s) (Thread k inp pc)"
    using mem by (simp add: registry_inv_def list_all_iff)
  then obtain r where r: "executions s k = Some r" "record_at pc r"
    by (auto simp: thread_ok_def split: option.splits)
  from worker_step_record[OF r st] obtain r' where
    r': "ex' = (executions s)(k \<mapsto> r')" "record_at pc' r'" by blast
  have s': "step (Worker i oc now) s =
      s\<lparr>executions := ex', threads := (threads s)[i := Thread k inp pc']\<rparr>"
    using True t st by simp
  have ids: "map thread_id ((threads s)[i := Thread k inp pc']) = map thread_id (threads s)"
    using True t by (simp add: map_thread_id_update)
  have dist: "distinct (map thread_id (threads s))"
    using assms by (simp add: registry_inv_def)
  have dom: "dom ex' = dom (executions s)"
    using r r' by auto
  have all: "list_all (thread_ok ex') ((threads s)[i := Thread k inp pc'])"
    unfolding list_all_length
  proof (intro allI impI)
    fix j assume j: "j < length ((threads s)[i := Thread k inp pc'])"
    show "thread_ok ex' ((threads s)[i := Thread k inp pc'] ! j)"
    proof (cases "j = i")
      case True
      with j r' show ?thesis by (simp add: thread_ok_def)
    next
      case False
      from j have jl: "j < length (threads s)" by simp
      have "thread_id (threads s ! j) \<noteq> k"
        using dist False jl True t
        by (metis distinct_conv_nth length_map nth_map thread.sel(1))
      moreover have "thread_ok (executions s) (threads s ! j)"
        using assms jl by (simp add: registry_inv_def list_all_length)
      ultimately show ?thesis
        using False r' by (simp add: thread_ok_def)
    qed
  qed
  show ?thesis
    using assms dom all ids unfolding s' registry_inv_def by simp
qed

lemma inv_step_kickoff:
  assumes "registry_inv s" and "executions s uuid = None"
  shows "registry_inv (snd (kickoff uuid now request s))"
proof -
  have notin: "uuid \<notin> set (map thread_id (threads s))"
    using assms by (auto simp: registry_inv_def)
  have "list_all (thread_ok ((executions s)(uuid \<mapsto> r))) (threads s)" for r
    using assms notin
    by (auto simp: registry_inv_def list_all_iff thread_ok_def split: option.splits)
  with assms notin show ?thesis
    by (auto simp: registry_inv_def kickoff_def start_thread_def create_execution_def thread_ok_def)
qed

lemma inv_step: "registry_inv s \<Longrightarrow> event_ok s e \<Longrightarrow> registry_inv (step e s)"
proof (cases e)
  case (Kickoff uuid now request)
  assume "registry_inv s" "event_ok s e"
  with Kickoff show ?thesis using inv_step_kickoff by simp
next
  case (Worker i oc now)
  assume "registry_inv s"
  with Worker show ?thesis using inv_step_worker by simp
next
  case (Status k)
  assume "registry_inv s"
  with Status show ?thesis by (simp add: registry_inv_def)
next
  case (Read i)
  assume "registry_inv s"
  with Read show ?thesis
    by (cases "handlers s ! i") (simp add: registry_inv_def)
qed

lemma inv_run: "registry_inv s \<Longrightarrow> admissible s evs \<Longrightarrow> registry_inv (run evs s)"
  by (induction evs arbitrary: s) (auto simp: inv_step)

lemma inv_reachable: "admissible init evs \<Longrightarrow> registry_inv (run evs init)"
  using inv_run inv_init by blast

text \<open>Every entry of the registry belongs to a thread, at whose program point it is.\<close>

lemma inv_record:
  assumes "registry_inv s" and "executions s k = Some r"
  shows "\<exists>i inp pc. i < length (threads s) \<and> threads s ! i = Thread k inp pc \<and> record_at pc r"
proof -
  from assms have "k \<in> set (map thread_id (threads s))"
    by (auto simp: registry_inv_def)
  then obtain i where i: "i < length (threads s)" "thread_id (threads s ! i) = k"
    by (auto simp: in_set_conv_nth)
  obtain k' inp pc where t: "threads s ! i = Thread k' inp pc"
    by (cases "threads s ! i") auto
  with i have k: "k' = k" by simp
  have "thread_ok (executions s) (threads s ! i)"
    using assms(1) i(1) by (simp add: registry_inv_def list_all_length)
  with t k assms(2) have "record_at pc r" by (simp add: thread_ok_def)
  with i t k show ?thesis by blast
qed

lemma moves_refl: "moves r r"
  by (simp add: moves_def)

text \<open>One event moves every entry along the state machine, or leaves it as it is.\<close>

lemma step_record:
  assumes "registry_inv s" and "event_ok s e" and "executions s k = Some r"
  shows "\<exists>r'. executions (step e s) k = Some r' \<and> moves r r'"
proof (cases e)
  case (Kickoff uuid now request)
  with assms have "uuid \<noteq> k" by auto
  with Kickoff assms show ?thesis
    by (simp add: kickoff_def start_thread_def create_execution_def moves_refl)
next
  case (Worker i oc now)
  show ?thesis
  proof (cases "i < length (threads s)")
    case False
    with Worker assms show ?thesis by (simp add: moves_refl)
  next
    case True
    obtain k' inp pc where t: "threads s ! i = Thread k' inp pc"
      by (cases "threads s ! i") auto
    obtain ex' pc' where st: "run_crew_async_step oc now k' pc (executions s) = (ex', pc')"
      by (cases "run_crew_async_step oc now k' pc (executions s)") auto
    have ex: "executions (step e s) = ex'"
      using Worker True t st by simp
    show ?thesis
    proof (cases "k' = k")
      case False
      then have "ex' k = executions s k"
        using worker_step_frame[OF st] by simp
      with ex assms show ?thesis by (simp add: moves_refl)
    next
      case same: True
      have "thread_ok (executions s) (threads s ! i)"
        using assms(1) True by (simp add: registry_inv_def list_all_length)
      with t same assms(3) have "record_at pc r" by (simp add: thread_ok_def)
      from worker_step_record[OF _ this st] same assms(3)
      obtain r' where "ex' = (executions s)(k \<mapsto> r')" "moves r r'" by blast
      with ex show ?thesis by simp
    qed
  qed
next
  case (Status k')
  with assms show ?thesis by (simp add: moves_refl)
next
  case (Read i)
  with assms show ?thesis
    by (cases "handlers s ! i") (auto simp: moves_refl)
qed

lemma run_append: "run (evs @ evs') s = run evs' (run evs s)"
  by (induction evs arbitrary: s) auto

lemma admissible_append:
  "admissible s (evs @ evs') = (admissible s evs \<and> admissible (run evs s) evs')"
  by (induction evs arbitrary: s) auto

lemma set_item_dom: "set_item ex k f = Some ex' \<Longrightarrow> dom ex' = dom ex"
  by (auto simp: set_item_def split: option.splits if_splits)

lemma in_try_dom: "in_try ex k f pc = (ex', pc') \<Longrightarrow> dom ex' = dom ex"
  by (auto simp: in_try_def set_item_dom split: option.splits)

lemma in_except_dom: "in_except ex k f pc = (ex', pc') \<Longrightarrow> dom ex' = dom ex"
  by (auto simp: in_except_def set_item_dom split: option.splits)

lemma worker_step_dom:
  "run_crew_async_step oc now k pc ex = (ex', pc') \<Longrightarrow> dom ex' = dom ex"
  by (cases pc)
     (auto simp: in_try_dom in_except_dom split: outcome.splits py_exception.splits sum.splits)

lemma step_dom: "dom (executions (step e s)) = dom (executions s) \<union> set (kickoff_ids [e])"
proof (cases e)
  case (Kickoff uuid now request)
  then show ?thesis
    by (simp add: kickoff_def start_thread_def create_execution_def)
next
  case (Worker i oc now)
  then show ?thesis
    by (cases "threads s ! i")
       (auto simp: worker_step_dom split: prod.splits)
next
  case (Status k)
  then show ?thesis by simp
next
  case (Read i)
  then show ?thesis by (cases "handlers s ! i") auto
qed

lemma kickoff_ids_Cons: "kickoff_ids (e # evs) = kickoff_ids [e] @ kickoff_ids evs"
  by (cases e) auto

lemma run_dom: "dom (executions (run evs s)) = dom (executions s) \<union> set (kickoff_ids evs)"
proof (induction evs arbitrary: s)
  case Nil
  show ?case by simp
next
  case (Cons e evs)
  have "set (kickoff_ids (e # evs)) = set (kickoff_ids [e]) \<union> set (kickoff_ids evs)"
    using kickoff_ids_Cons[of e evs] by simp
  with Cons[of "step e s"] step_dom[of e s] show ?case by auto
qed

lemma step_thread_ids:
  "map thread_id (threads (step e s)) = map thread_id (threads s) @ kickoff_ids [e]"
proof (cases e)
  case (Kickoff uuid now request)
  then show ?thesis
    by (simp add: kickoff_def start_thread_def create_execution_def)
next
  case (Worker i oc now)
  then show ?thesis
    by (cases "threads s ! i")
       (auto simp: map_update list_update_same_conv split: prod.splits)
next
  case (Status k)
  then show ?thesis by simp
next
  case (Read i)
  then show ?thesis by (cases "handlers s ! i") auto
qed

lemma run_thread_ids:
  "map thread_id (threads (run evs s)) = map thread_id (threads s) @ kickoff_ids evs"
proof (induction evs arbitrary: s)
  case Nil
  show ?case by simp
next
  case (Cons e evs)
  show ?case
    using Cons[of "step e s"] step_thread_ids[of e s] kickoff_ids_Cons[of e evs] by simp
qed

lemma reachable_thread_ids:
  "map thread_id (threads (run evs init)) = kickoff_ids evs"
  using run_thread_ids[of evs init] by (simp add: init_def)

lemma kickoff_ids_append: "kickoff_ids (evs @ evs') = kickoff_ids evs @ kickoff_ids evs'"
proof (induction evs)
  case Nil
  show ?case by simp
next
  case (Cons e evs)
  then show ?case
    using kickoff_ids_Cons[of e "evs @ evs'"] kickoff_ids_Cons[of e evs] by simp
qed


lemma one_job_run:
  "run one_job (snd (kickoff ''b2'' ''t1'' (KickoffRequest [(''topic'', JStr ''SQL'')]) init)) =
     \<lparr>executions =
        [''b2'' \<mapsto> \<lparr>state = ''RUNNING'', started_at = ''t1'', completed_at = None,
                     last_executed_task = None, error = None,
                     inputs = [(''topic'', JStr ''SQL'')]\<rparr>],
      threads = [Thread ''b2'' [(''topic'', JStr ''SQL'')] L79],
      handlers = []\<rparr>"
  by (simp add: one_job_def init_def kickoff_def start_thread_def create_execution_def
        in_try_def set_item_def)

lemma call_step:
  "run_crew_async_step oc now k L79 ex = (ex, after_call oc 0)"
proof (cases oc)
  case (Raises e)
  then show ?thesis by (cases e) simp_all
qed simp

lemma handler_path_step:
  assumes "ex k = Some r" and "record_at (handler_path e n) r"
    and "handler_path e n = Returned \<longrightarrow> failed_record e r"
  shows "snd (run_crew_async_step oc' now k (handler_path e n) ex) = handler_path e (Suc n)
       \<and> fst (run_crew_async_step oc' now k (handler_path e n) ex)
           = ex(k \<mapsto> the (fst (run_crew_async_step oc' now k (handler_path e n) ex) k))
       \<and> (handler_path e (Suc n) = Returned \<longrightarrow>
            failed_record e (the (fst (run_crew_async_step oc' now k (handler_path e n) ex) k)))"
proof (cases e)
  case (BaseException m)
  with assms(1) show ?thesis by (simp add: map_upd_triv)
next
  case (Exception m)
  consider "n = 0" | "n = 1" | "n = 2" | "3 \<le> n" by linarith
  then show ?thesis
  proof cases
    case 1
    with Exception assms(1) show ?thesis by (simp add: in_except_def set_item_def)
  next
    case 2
    with Exception assms(1) show ?thesis by (simp add: in_except_def set_item_def)
  next
    case 3
    with Exception assms(1,2) show ?thesis
      by (simp add: in_except_def set_item_def failed_record_def)
  next
    case 4
    with Exception assms(1,3) show ?thesis by (simp add: map_upd_triv)
  qed
qed

lemma after_call_step:
  assumes "ex k = Some r" and "record_at (after_call oc n) r"
    and "after_call oc n = Returned \<longrightarrow> final_record oc r"
  shows "snd (run_crew_async_step oc' now k (after_call oc n) ex) = after_call oc (Suc n)
       \<and> fst (run_crew_async_step oc' now k (after_call oc n) ex)
           = ex(k \<mapsto> the (fst (run_crew_async_step oc' now k (after_call oc n) ex) k))
       \<and> (after_call oc (Suc n) = Returned \<longrightarrow>
            final_record oc (the (fst (run_crew_async_step oc' now k (after_call oc n) ex) k)))"
proof (cases oc)
  case (Raises e)
  with handler_path_step[of ex k r e n oc' now] assms show ?thesis by simp
next
  case (Returns res)
  consider "n = 0" | "n = 1" | "n = 2" | "3 \<le> n" by linarith
  then show ?thesis
  proof cases
    case 1
    with Returns assms(1) show ?thesis by (simp add: in_try_def set_item_def)
  next
    case 2
    with Returns assms(1) show ?thesis by (simp add: in_try_def set_item_def)
  next
    case 3
    show ?thesis
    proof (cases "output_of res")
      case (Inr t)
      with 3 Returns assms(1,2) show ?thesis by (simp add: in_try_def set_item_def)
    next
      case (Inl e)
      with 3 Returns assms(1) show ?thesis
        by (cases e) (simp_all add: map_upd_triv)
    qed
  next
    case 4
    show ?thesis
    proof (cases "output_of res")
      case (Inr t)
      with 4 Returns assms(1,3) show ?thesis by (simp add: map_upd_triv)
    next
      case (Inl e)
      have suc: "Suc n - 3 = Suc (n - 3)" using 4 by simp
      from 4 Returns Inl assms(2,3)
      have h: "record_at (handler_path e (n - 3)) r"
          "handler_path e (n - 3) = Returned \<longrightarrow> failed_record e r"
        by simp_all
      from handler_path_step[where ex = ex and k = k and r = r and e = e and n = "n - 3"
          and oc' = oc' and now = now, OF assms(1) h] 4 Returns Inl suc
      show ?thesis by simp
    qed
  qed
qed

lemma step_own:
  assumes "i < length (threads s)" and "threads s ! i = Thread k inp pc"
  shows "executions (step (Worker i oc now) s)
           = fst (run_crew_async_step oc now k pc (executions s))"
    and "threads (step (Worker i oc now) s)
           = (threads s)[i := Thread k inp (snd (run_crew_async_step oc now k pc (executions s)))]"
  using assms by (simp_all add: split_beta)

lemma own_steps_Cons: "own_steps i (e # evs) = own_steps i [e] + own_steps i evs"
  by (cases e) auto

lemma own_or_other: "(\<exists>oc now. e = Worker i oc now) \<or> own_steps i [e] = 0"
  by (cases e) auto

lemma step_other:
  assumes "registry_inv s" and "event_ok s e" and "i < length (threads s)"
    and "threads s ! i = Thread k inp pc" and "own_steps i [e] = 0"
  shows "i < length (threads (step e s)) \<and> threads (step e s) ! i = Thread k inp pc
       \<and> executions (step e s) k = executions s k"
proof -
  have "thread_ok (executions s) (threads s ! i)"
    using assms(1,3) by (simp add: registry_inv_def list_all_length)
  then obtain r where r: "executions s k = Some r"
    using assms(4) by (auto simp: thread_ok_def split: option.splits)
  show ?thesis
  proof (cases e)
    case (Kickoff uuid now request)
    with assms(2) r have "uuid \<noteq> k" by auto
    with Kickoff assms(3,4) show ?thesis
      by (simp add: kickoff_def start_thread_def create_execution_def nth_append)
  next
    case (Worker j oc now)
    with assms(5) have ne: "j \<noteq> i" by (simp split: if_splits)
    show ?thesis
    proof (cases "j < length (threads s)")
      case False
      with Worker assms(3,4) show ?thesis by simp
    next
      case True
      obtain k' inp' pc' where t: "threads s ! j = Thread k' inp' pc'"
        by (cases "threads s ! j") auto
      have dist: "distinct (map thread_id (threads s))"
        using assms(1) by (simp add: registry_inv_def)
      have "thread_id (threads s ! j) \<noteq> thread_id (threads s ! i)"
        using dist ne True assms(3) nth_eq_iff_index_eq[of "map thread_id (threads s)" j i]
        by simp
      then have k': "k' \<noteq> k"
        using assms(4) t by simp
      obtain ex' pc'' where st: "run_crew_async_step oc now k' pc' (executions s) = (ex', pc'')"
        by (cases "run_crew_async_step oc now k' pc' (executions s)") auto
      have "ex' k = executions s k"
        using st k' by (rule worker_step_frame[OF _ not_sym])
      moreover have "executions (step e s) = ex'"
        unfolding Worker step_own(1)[OF True t] st by simp
      moreover have "threads (step e s) = (threads s)[j := Thread k' inp' pc'']"
        unfolding Worker step_own(2)[OF True t] st by simp
      ultimately show ?thesis
        using ne assms(3,4) by simp
    qed
  next
    case (Status k')
    with assms(3,4) show ?thesis by simp
  next
    case (Read j)
    with assms(3,4) show ?thesis
      by (cases "handlers s ! j") auto
  qed
qed

lemma after_call_run:
  assumes "registry_inv s" and "admissible s evs" and "i < length (threads s)"
    and "threads s ! i = Thread k inp (after_call oc n)"
    and "after_call oc n = Returned \<longrightarrow>
           (\<exists>r. executions s k = Some r \<and> final_record oc r)"
  shows "i < length (threads (run evs s))
       \<and> threads (run evs s) ! i = Thread k inp (after_call oc (n + own_steps i evs))
       \<and> (after_call oc (n + own_steps i evs) = Returned \<longrightarrow>
            (\<exists>r. executions (run evs s) k = Some r \<and> final_record oc r))"
  using assms
proof (induction evs arbitrary: s n)
  case Nil
  then show ?case by simp
next
  case (Cons e evs)
  from Cons.prems(2) have ok: "event_ok s e" and rest: "admissible (step e s) evs"
    by simp_all
  have inv1: "registry_inv (step e s)"
    using Cons.prems(1) ok by (rule inv_step)
  have "thread_ok (executions s) (threads s ! i)"
    using Cons.prems(1,3) by (simp add: registry_inv_def list_all_length)
  then obtain r where r: "executions s k = Some r" "record_at (after_call oc n) r"
    using Cons.prems(4) by (auto simp: thread_ok_def split: option.splits)
  from own_or_other[of e i] show ?case
  proof
    assume "\<exists>oc' now. e = Worker i oc' now"
    then obtain oc' now where e: "e = Worker i oc' now" by blast
    let ?X = "run_crew_async_step oc' now k (after_call oc n) (executions s)"
    have fin: "after_call oc n = Returned \<longrightarrow> final_record oc r"
      using Cons.prems(5) r(1) by auto
    note X = after_call_step[where ex = "executions s" and k = k and r = r and oc = oc
        and n = n and oc' = oc' and now = now, OF r fin]
    have ex1: "executions (step e s) = fst ?X"
      unfolding e using Cons.prems(3,4) by (rule step_own(1))
    have th1: "threads (step e s) = (threads s)[i := Thread k inp (snd ?X)]"
      unfolding e using Cons.prems(3,4) by (rule step_own(2))
    have len: "i < length (threads (step e s))"
      using th1 Cons.prems(3) by simp
    have t1: "threads (step e s) ! i = Thread k inp (after_call oc (Suc n))"
      using th1 Cons.prems(3) X by simp
    have "executions (step e s) k = Some (the (fst ?X k))"
      using X ex1 by (metis fun_upd_same)
    with X have f1: "after_call oc (Suc n) = Returned \<longrightarrow>
           (\<exists>r. executions (step e s) k = Some r \<and> final_record oc r)"
      by simp
    have "own_steps i (e # evs) = Suc (own_steps i evs)"
      using e by simp
    with Cons.IH[OF inv1 rest len t1 f1] show ?case by simp
  next
    assume other: "own_steps i [e] = 0"
    from step_other[OF Cons.prems(1) ok Cons.prems(3,4) other]
    have len: "i < length (threads (step e s))"
      and t1: "threads (step e s) ! i = Thread k inp (after_call oc n)"
      and ex1: "executions (step e s) k = executions s k" by simp_all
    have f1: "after_call oc n = Returned \<longrightarrow>
           (\<exists>r. executions (step e s) k = Some r \<and> final_record oc r)"
      using Cons.prems(5) ex1 by simp
    have "own_steps i (e # evs) = own_steps i evs"
      using other own_steps_Cons[of i e evs] by simp
    with Cons.IH[OF inv1 rest len t1 f1] show ?case by simp
  qed
qed

lemma after_call_0_not_Returned: "after_call oc 0 \<noteq> Returned"
proof (cases oc)
  case (Raises e)
  then show ?thesis by (cases e) simp_all
qed simp

lemma call_then_run:
  assumes "admissible init evs" and "s = run evs init"
    and "i < length (threads s)" and "threads s ! i = Thread k inp L79"
    and "admissible s (Worker i oc now # evs')"
    and "s' = run (Worker i oc now # evs') s"
  shows "i < length (threads s')
       \<and> threads s' ! i = Thread k inp (after_call oc (own_steps i evs'))
       \<and> (after_call oc (own_steps i evs') = Returned \<longrightarrow>
            (\<exists>r. executions s' k = Some r \<and> final_record oc r))"
proof -
  let ?s1 = "step (Worker i oc now) s"
  have inv: "registry_inv s"
    unfolding assms(2) using assms(1) by (rule inv_reachable)
  from assms(5) have ok: "event_ok s (Worker i oc now)" and rest: "admissible ?s1 evs'"
    by simp_all
  have inv1: "registry_inv ?s1"
    using inv ok by (rule inv_step)
  have th1: "threads ?s1 = (threads s)[i := Thread k inp (after_call oc 0)]"
    unfolding step_own(2)[OF assms(3,4)] call_step by simp
  have len: "i < length (threads ?s1)"
    using th1 assms(3) by simp
  have t1: "threads ?s1 ! i = Thread k inp (after_call oc 0)"
    using th1 assms(3) by simp
  have f1: "after_call oc 0 = Returned \<longrightarrow>
           (\<exists>r. executions ?s1 k = Some r \<and> final_record oc r)"
    using after_call_0_not_Returned[of oc] by simp
  have "s' = run evs' ?s1"
    unfolding assms(6) by simp
  with after_call_run[OF inv1 rest len t1 f1] show ?thesis by simp
qed

lemma after_call_Returned: "3 \<le> n \<Longrightarrow> after_call (Raises (Exception m)) n = Returned"
  by simp

lemma after_call_pcs:
  "after_call (Raises (Exception m)) n
     \<in> {L91 (Exception m), L92 (Exception m), L93 (Exception m), Returned}"
  by simp

lemma started_job_run:
  "run started_job init =
     \<lparr>executions =
        [''a1'' \<mapsto> \<lparr>state = ''RUNNING'', started_at = ''t0'', completed_at = None,
                     last_executed_task = None, error = None, inputs = []\<rparr>],
      threads = [Thread ''a1'' [] L79],
      handlers = []\<rparr>"
  by (simp add: started_job_def init_def kickoff_def start_thread_def create_execution_def
        in_try_def set_item_def)

lemma started_job_admissible: "admissible init started_job"
  by (simp add: started_job_def init_def kickoff_def start_thread_def create_execution_def)

lemma started_job_thread:
  "(0::nat) < length (threads (run started_job init))"
  "threads (run started_job init) ! 0 = Thread ''a1'' [] L79"
  by (simp_all add: started_job_run)

lemma three_steps_admissible: "admissible s (Worker 0 oc now # three_steps)"
  by (simp add: three_steps_def)

lemma three_steps_own: "3 \<le> own_steps 0 three_steps"
  by (simp add: three_steps_def)

lemma parse_KickoffRequest_Some:
  "inputs_field body = Some (JObj d) \<Longrightarrow> parse_KickoffRequest body = Some (KickoffRequest d)"
  by (simp add: parse_KickoffRequest_def)

lemma parse_KickoffRequest_None:
  "(parse_KickoffRequest body = None) = (\<forall>d. inputs_field body \<noteq> Some (JObj d))"
  by (auto simp: parse_KickoffRequest_def split: option.splits json.splits)

lemma repr_examples:
  "py_repr ''ab-12'' = [CHR 0x27] @ ''ab-12'' @ [CHR 0x27]"
  "py_repr [CHR ''a'', CHR 0x27, CHR ''b''] = [CHR 0x22, CHR ''a'', CHR 0x27, CHR ''b'', CHR 0x22]"
  "py_repr [CHR 0x0A, CHR 0x01, CHR 0xFF] =
     [CHR 0x27, CHR 0x5C, CHR ''n'', CHR 0x5C, CHR ''x'', CHR ''0'', CHR ''1'', CHR 0xFF, CHR 0x27]"
  by (simp_all add: py_repr_def repr_char_def hex_digit_def Let_def)

text \<open>
  A run is admissible exactly when the identifiers drawn along it are pairwise distinct
  and none of them is in the registry at its start.
\<close>

lemma admissible_distinct:
  "admissible s evs \<longleftrightarrow>
     distinct (kickoff_ids evs) \<and> set (kickoff_ids evs) \<inter> dom (executions s) = {}"
proof (induction evs arbitrary: s)
  case Nil
  show ?case by simp
next
  case (Cons e evs)
  show ?case
  proof (cases e)
    case (Kickoff uuid now request)
    have d: "dom (executions (step e s)) = insert uuid (dom (executions s))"
      using step_dom[of e s] Kickoff by simp
    have "admissible s (e # evs) \<longleftrightarrow> executions s uuid = None \<and> admissible (step e s) evs"
      using Kickoff by simp
    also have "\<dots> \<longleftrightarrow> uuid \<notin> dom (executions s)
        \<and> distinct (kickoff_ids evs)
        \<and> set (kickoff_ids evs) \<inter> insert uuid (dom (executions s)) = {}"
      unfolding Cons.IH d by auto
    also have "\<dots> \<longleftrightarrow> distinct (kickoff_ids (e # evs))
        \<and> set (kickoff_ids (e # evs)) \<inter> dom (executions s) = {}"
      using Kickoff by auto
    finally show ?thesis .
  next
    case (Worker i oc now)
    have "dom (executions (step e s)) = dom (executions s)"
      using step_dom[of e s] Worker by simp
    with Worker Cons.IH[of "step e s"] show ?thesis by simp
  next
    case (Status k)
    have "dom (executions (step e s)) = dom (executions s)"
      using step_dom[of e s] Status by simp
    with Status Cons.IH[of "step e s"] show ?thesis by simp
  next
    case (Read i)
    have "dom (executions (step e s)) = dom (executions s)"
      using step_dom[of e s] Read by simp
    with Read Cons.IH[of "step e s"] show ?thesis by simp
  qed
qed

lemma admissible_init: "admissible init evs \<longleftrightarrow> distinct (kickoff_ids evs)"
  by (simp add: admissible_distinct init_def)



















lemma worker_step_clean:
  assumes "ex k = Some r" and "record_at pc r" and "clean_at pc r"
    and "event_converts (Worker i oc now)"
    and "run_crew_async_step oc now k pc ex = (ex', pc')"
  shows "clean_at pc' (the (ex' k))
       \<and> (state r = ''SUCCESS'' \<longrightarrow> state (the (ex' k)) = ''SUCCESS'')
       \<and> (completed_at r \<noteq> None \<longrightarrow> completed_at (the (ex' k)) = completed_at r)"
proof (cases pc)
  case L79
  show ?thesis
  proof (cases oc)
    case (Returns res)
    with L79 assms show ?thesis by (auto split: sum.splits)
  next
    case (Raises e)
    with L79 assms show ?thesis by (cases e) auto
  qed
next
  case (L85 res)
  with assms(3) obtain t where "output_of res = Inr t"
    by (auto split: sum.splits)
  with L85 assms show ?thesis by (auto simp: in_try_def set_item_def)
qed (use assms in \<open>auto simp: in_try_def in_except_def set_item_def\<close>)

lemma step_length:
  "length (threads (step e s)) = length (threads s) + length (kickoff_ids [e])"
  using arg_cong[OF step_thread_ids[of e s], of length] by simp

lemma clean_inv_step:
  assumes "registry_inv s" and "clean_inv s" and "event_ok s e" and "event_converts e"
  shows "clean_inv (step e s)"
  unfolding clean_inv_def list_all_length
proof (intro allI impI)
  fix j assume j: "j < length (threads (step e s))"
  show "clean_thread (executions (step e s)) (threads (step e s) ! j)"
  proof (cases "j < length (threads s)")
    case False
    with j step_length[of e s] obtain uuid now request where
      e: "e = Kickoff uuid now request" and jl: "j = length (threads s)"
      by (cases e) auto
    then show ?thesis
      by (simp add: kickoff_def start_thread_def create_execution_def clean_thread_def)
  next
    case True
    obtain k inp pc where t: "threads s ! j = Thread k inp pc"
      by (cases "threads s ! j") auto
    have old: "clean_thread (executions s) (threads s ! j)"
      using assms(2) True by (simp add: clean_inv_def list_all_length)
    have "thread_ok (executions s) (threads s ! j)"
      using assms(1) True by (simp add: registry_inv_def list_all_length)
    with t obtain r where r: "executions s k = Some r" "record_at pc r"
      by (auto simp: thread_ok_def split: option.splits)
    with old t have cl: "clean_at pc r"
      by (simp add: clean_thread_def)
    from own_or_other[of e j] show ?thesis
    proof
      assume other: "own_steps j [e] = 0"
      from step_other[OF assms(1,3) True t other]
      have "threads (step e s) ! j = Thread k inp pc"
        and "executions (step e s) k = executions s k" by simp_all
      with r(1) cl show ?thesis by (simp add: clean_thread_def)
    next
      assume "\<exists>oc now. e = Worker j oc now"
      then obtain oc now where e: "e = Worker j oc now" by blast
      obtain ex' pc' where st: "run_crew_async_step oc now k pc (executions s) = (ex', pc')"
        by (cases "run_crew_async_step oc now k pc (executions s)") auto
      have ex1: "executions (step e s) = ex'"
        unfolding e step_own(1)[OF True t] st by simp
      have th1: "threads (step e s) ! j = Thread k inp pc'"
        unfolding e step_own(2)[OF True t] st using True by simp
      from worker_step_record[OF r st] obtain r' where r': "ex' k = Some r'"
        by auto
      from worker_step_clean[OF r cl _ st, of j] assms(4) e r'
      have "clean_at pc' r'" by simp
      with r' ex1 th1 show ?thesis
        by (simp add: clean_thread_def)
    qed
  qed
qed

text \<open>Under the proviso one event changes neither a state SUCCESS nor a \<^verbatim>\<open>completed_at\<close> that is set.\<close>

lemma step_record_strict:
  assumes "registry_inv s" and "clean_inv s" and "event_ok s e" and "event_converts e"
    and "executions s k = Some r"
  shows "\<exists>r'. executions (step e s) k = Some r'
           \<and> (state r = ''SUCCESS'' \<longrightarrow> state r' = ''SUCCESS'')
           \<and> (completed_at r \<noteq> None \<longrightarrow> completed_at r' = completed_at r)"
proof -
  from inv_record[OF assms(1,5)] obtain j inp pc where
    j: "j < length (threads s)" "threads s ! j = Thread k inp pc" "record_at pc r" by blast
  have "clean_thread (executions s) (threads s ! j)"
    using assms(2) j(1) by (simp add: clean_inv_def list_all_length)
  with j(2) assms(5) have cl: "clean_at pc r"
    by (simp add: clean_thread_def)
  from own_or_other[of e j] show ?thesis
  proof
    assume other: "own_steps j [e] = 0"
    from step_other[OF assms(1,3) j(1,2) other] assms(5) show ?thesis by simp
  next
    assume "\<exists>oc now. e = Worker j oc now"
    then obtain oc now where e: "e = Worker j oc now" by blast
    obtain ex' pc' where st: "run_crew_async_step oc now k pc (executions s) = (ex', pc')"
      by (cases "run_crew_async_step oc now k pc (executions s)") auto
    have ex1: "executions (step e s) = ex'"
      unfolding e step_own(1)[OF j(1,2)] st by simp
    from worker_step_record[OF assms(5) j(3) st] obtain r' where r': "ex' k = Some r'"
      by auto
    from worker_step_clean[OF assms(5) j(3) cl _ st, of j] assms(4) e r'
    have "(state r = ''SUCCESS'' \<longrightarrow> state r' = ''SUCCESS'')
        \<and> (completed_at r \<noteq> None \<longrightarrow> completed_at r' = completed_at r)"
      by simp
    with r' ex1 show ?thesis by simp
  qed
qed

lemma clean_init: "clean_inv init"
  by (simp add: clean_inv_def init_def)

lemma run_strict:
  "registry_inv s \<Longrightarrow> clean_inv s \<Longrightarrow> admissible s evs \<Longrightarrow> conversions_return evs \<Longrightarrow>
   executions s k = Some r \<Longrightarrow>
     registry_inv (run evs s) \<and> clean_inv (run evs s)
     \<and> (\<exists>r'. executions (run evs s) k = Some r'
           \<and> (state r = ''SUCCESS'' \<longrightarrow> state r' = ''SUCCESS'')
           \<and> (completed_at r \<noteq> None \<longrightarrow> completed_at r' = completed_at r))"
proof (induction evs arbitrary: s r)
  case Nil
  then show ?case by simp
next
  case (Cons e evs)
  from Cons.prems(3) have ok: "event_ok s e" and rest: "admissible (step e s) evs"
    by simp_all
  from Cons.prems(4) have cv: "event_converts e" and cvs: "conversions_return evs"
    by (simp_all add: conversions_return_def)
  have inv1: "registry_inv (step e s)"
    using Cons.prems(1) ok by (rule inv_step)
  have cl1: "clean_inv (step e s)"
    using Cons.prems(1,2) ok cv by (rule clean_inv_step)
  from step_record_strict[OF Cons.prems(1,2) ok cv Cons.prems(5)] obtain r1 where
    r1: "executions (step e s) k = Some r1"
        "state r = ''SUCCESS'' \<longrightarrow> state r1 = ''SUCCESS''"
        "completed_at r \<noteq> None \<longrightarrow> completed_at r1 = completed_at r" by blast
  from Cons.IH[OF inv1 cl1 rest cvs r1(1)] obtain r' where
    inv: "registry_inv (run evs (step e s))" "clean_inv (run evs (step e s))"
    and r': "executions (run evs (step e s)) k = Some r'"
        "state r1 = ''SUCCESS'' \<longrightarrow> state r' = ''SUCCESS''"
        "completed_at r1 \<noteq> None \<longrightarrow> completed_at r' = completed_at r1" by blast
  have "(state r = ''SUCCESS'' \<longrightarrow> state r' = ''SUCCESS'')
      \<and> (completed_at r \<noteq> None \<longrightarrow> completed_at r' = completed_at r)"
    using r1(2,3) r'(2,3) by auto
  with inv r'(1) show ?case by simp
qed

lemma conversions_return_append:
  "conversions_return (evs @ evs') = (conversions_return evs \<and> conversions_return evs')"
  by (simp add: conversions_return_def)

lemma clean_reachable:
  assumes "admissible init evs" and "conversions_return evs"
  shows "clean_inv (run evs init)"
  using assms
proof (induction evs rule: rev_induct)
  case Nil
  show ?case by (simp add: clean_init)
next
  case (snoc e evs)
  from snoc.prems(1) have a: "admissible init evs" "event_ok (run evs init) e"
    by (simp_all add: admissible_append)
  from snoc.prems(2) have c: "conversions_return evs" "event_converts e"
    by (simp_all add: conversions_return_def)
  have "clean_inv (step e (run evs init))"
    using inv_reachable[OF a(1)] snoc.IH[OF a(1) c(1)] a(2) c(2) by (rule clean_inv_step)
  then show ?case by (simp add: run_append)
qed





lemma record_at_success: "record_at pc r \<Longrightarrow> state r = ''SUCCESS'' \<Longrightarrow> error r = None"
  by (cases pc) auto

lemma record_at_failed: "record_at pc r \<Longrightarrow> state r = ''FAILED'' \<Longrightarrow> last_executed_task r = None"
  by (cases pc) auto

lemma record_at_task: "record_at pc r \<Longrightarrow> last_executed_task r \<noteq> None \<Longrightarrow> state r = ''SUCCESS''"
  by (cases pc) (auto split: if_splits)

lemma record_at_error: "record_at pc r \<Longrightarrow> error r \<noteq> None \<Longrightarrow> state r = ''FAILED''"
  by (cases pc) (auto split: if_splits)

lemma record_at_completed:
  "record_at pc r \<Longrightarrow> completed_at r \<noteq> None \<Longrightarrow> state r = ''SUCCESS'' \<or> state r = ''FAILED''"
  by (cases pc) (auto split: if_splits)

lemma record_at_states:
  "record_at pc r \<Longrightarrow>
     state r = ''PENDING'' \<or> state r = ''RUNNING'' \<or> state r = ''SUCCESS'' \<or> state r = ''FAILED''"
  by (cases pc) (auto split: if_splits)

lemma handler_ok_read:
  assumes "handler_ok ex (Handler k pc)" and "ex k = Some r" and "record_at wpc r"
  shows "handler_ok ex (Handler k (get_status_step ex k pc))"
proof (cases pc)
  case (L171 st t sa ca)
  have a: "last_executed_task r \<noteq> None \<Longrightarrow> state r = ''SUCCESS''"
    using assms(3) by (rule record_at_task)
  have b: "state r = ''SUCCESS'' \<Longrightarrow> error r = None"
    using assms(3) by (rule record_at_success)
  from L171 assms(1,2) have rd: "st = ''FAILED'' \<longrightarrow> state r = ''FAILED''"
      "t \<noteq> None \<longrightarrow> last_executed_task r \<noteq> None"
    by simp_all
  have "\<not> (t \<noteq> None \<and> error r \<noteq> None)"
    using rd(2) a b by auto
  moreover have "st = ''FAILED'' \<longrightarrow> t = None"
    using rd a by auto
  ultimately show ?thesis
    using L171 assms(2) by (simp add: read_item_def response_ok_def)
next
  case (Responded x)
  with assms(1) show ?thesis by simp
qed (use assms in \<open>auto simp: read_item_def\<close>)

lemma handler_ok_absent:
  assumes "handler_ok ex (Handler k pc)" and "ex k = None"
  shows "handler_ok ex (Handler k (get_status_step ex k pc))"
  using assms by (cases pc) (auto simp: read_item_def)

lemma moves_failed:
  assumes "moves r r'" and "state r = ''FAILED''"
  shows "state r' = ''FAILED''"
proof -
  from assms(1) have "state r' = state r
      \<or> (state r, state r') \<in>
          {(''PENDING'', ''RUNNING''), (''RUNNING'', ''SUCCESS''), (''RUNNING'', ''FAILED''),
           (''SUCCESS'', ''FAILED'')}"
    unfolding moves_def by (elim conjE)
  with assms(2) show ?thesis by auto
qed

lemma moves_task:
  assumes "moves r r'" and "last_executed_task r \<noteq> None"
  shows "last_executed_task r' \<noteq> None"
proof -
  from assms(1) have "last_executed_task r \<noteq> None
      \<longrightarrow> last_executed_task r' = last_executed_task r"
    unfolding moves_def by (elim conjE)
  with assms(2) show ?thesis by simp
qed

lemma reads_at_moves:
  assumes "reads_at pc r" and "moves r r'"
  shows "reads_at pc r'"
proof -
  have f: "state r = ''FAILED'' \<Longrightarrow> state r' = ''FAILED''"
    using assms(2) by (rule moves_failed)
  have t: "last_executed_task r \<noteq> None \<Longrightarrow> last_executed_task r' \<noteq> None"
    using assms(2) by (rule moves_task)
  show ?thesis
  proof (cases pc)
    case (L168 st)
    with assms(1) f show ?thesis by auto
  next
    case (L169 st x)
    with assms(1) f t show ?thesis by auto
  next
    case (L170 st x sa)
    with assms(1) f t show ?thesis by auto
  next
    case (L171 st x sa ca)
    with assms(1) f t show ?thesis by auto
  qed simp_all
qed

lemma handler_ok_responded:
  "handler_ok ex (Handler k (Responded x)) \<Longrightarrow> handler_ok ex' (Handler k (Responded x))"
  by (cases x) auto

lemma handler_ok_moves:
  assumes "handler_ok ex h"
    and "\<And>k r. ex k = Some r \<Longrightarrow> \<exists>r'. ex' k = Some r' \<and> moves r r'"
  shows "handler_ok ex' h"
proof (cases h)
  case (Handler k pc)
  show ?thesis
  proof (cases "pc = L161 \<or> (\<exists>x. pc = Responded x)")
    case True
    with assms(1) Handler show ?thesis by (auto intro: handler_ok_responded)
  next
    case False
    with assms(1) Handler obtain r where r: "ex k = Some r" "reads_at pc r"
      by (cases pc) (auto split: option.splits)
    from assms(2)[OF r(1)] obtain r' where r': "ex' k = Some r'" "moves r r'" by blast
    have "reads_at pc r'" using r(2) r'(2) by (rule reads_at_moves)
    with r'(1) False Handler show ?thesis by (cases pc) auto
  qed
qed

lemma handlers_unchanged:
  "handlers (step (Kickoff uuid now request) s) = handlers s"
  "handlers (step (Worker i oc now) s) = handlers s"
  by (auto simp: kickoff_def start_thread_def create_execution_def
        split: thread.splits prod.splits)

lemma handlers_inv_step:
  assumes "registry_inv s" and "handlers_inv s" and "event_ok s e"
  shows "handlers_inv (step e s)"
proof -
  have moved: "list_all (handler_ok (executions (step e s))) (handlers s)"
    unfolding list_all_iff
  proof
    fix h assume "h \<in> set (handlers s)"
    with assms(2) have "handler_ok (executions s) h"
      by (simp add: handlers_inv_def list_all_iff)
    then show "handler_ok (executions (step e s)) h"
      using step_record[OF assms(1,3)] by (rule handler_ok_moves)
  qed
  show ?thesis
  proof (cases e)
    case (Kickoff uuid now request)
    have "handlers (step e s) = handlers s"
      unfolding Kickoff by (rule handlers_unchanged)
    with moved show ?thesis unfolding handlers_inv_def by simp
  next
    case (Worker i oc now)
    have "handlers (step e s) = handlers s"
      unfolding Worker by (rule handlers_unchanged)
    with moved show ?thesis unfolding handlers_inv_def by simp
  next
    case (Status k)
    with assms(2) show ?thesis by (simp add: handlers_inv_def)
  next
    case (Read i)
    show ?thesis
    proof (cases "i < length (handlers s)")
      case False
      with Read assms(2) show ?thesis by simp
    next
      case True
      obtain k pc where h: "handlers s ! i = Handler k pc"
        by (cases "handlers s ! i") auto
      have "handler_ok (executions s) (handlers s ! i)"
        using assms(2) True by (simp add: handlers_inv_def list_all_length)
      then have ok: "handler_ok (executions s) (Handler k pc)"
        using h by simp
      have new: "handler_ok (executions s) (Handler k (get_status_step (executions s) k pc))"
      proof (cases "executions s k")
        case None
        with ok show ?thesis by (rule handler_ok_absent)
      next
        case (Some r)
        from inv_record[OF assms(1) Some] obtain wpc where "record_at wpc r" by blast
        with ok Some show ?thesis by (rule handler_ok_read)
      qed
      have "list_all (handler_ok (executions s))
              ((handlers s)[i := Handler k (get_status_step (executions s) k pc)])"
        unfolding list_all_length
      proof (intro allI impI)
        fix n assume "n < length ((handlers s)[i := Handler k (get_status_step (executions s) k pc)])"
        then have n: "n < length (handlers s)" by simp
        show "handler_ok (executions s)
                ((handlers s)[i := Handler k (get_status_step (executions s) k pc)] ! n)"
        proof (cases "n = i")
          case True
          with n new show ?thesis by simp
        next
          case False
          have "handler_ok (executions s) (handlers s ! n)"
            using assms(2) n by (simp add: handlers_inv_def list_all_length)
          with False show ?thesis by simp
        qed
      qed
      with Read True h show ?thesis by (simp add: handlers_inv_def)
    qed
  qed
qed

lemma handlers_inv_run:
  "registry_inv s \<Longrightarrow> handlers_inv s \<Longrightarrow> admissible s evs \<Longrightarrow> handlers_inv (run evs s)"
proof (induction evs arbitrary: s)
  case Nil
  then show ?case by simp
next
  case (Cons e evs)
  from Cons.prems have ok: "event_ok s e" and rest: "admissible (step e s) evs"
    by simp_all
  have "registry_inv (step e s)"
    using Cons.prems(1) ok by (rule inv_step)
  moreover have "handlers_inv (step e s)"
    using Cons.prems(1,2) ok by (rule handlers_inv_step)
  ultimately have "handlers_inv (run evs (step e s))"
    using rest by (rule Cons.IH)
  then show ?case by simp
qed

lemma handlers_inv_reachable: "admissible init evs \<Longrightarrow> handlers_inv (run evs init)"
proof -
  assume a: "admissible init evs"
  have "handlers_inv init" by (simp add: handlers_inv_def init_def)
  with inv_init show ?thesis using a by (rule handlers_inv_run)
qed

lemma succeeded_job_run:
  "run succeeded_job init =
     \<lparr>executions =
        [''a1'' \<mapsto> \<lparr>state = ''SUCCESS'', started_at = ''t0'', completed_at = Some ''t4'',
                     last_executed_task =
                       Some \<lparr>output_text = ''ok'', task_name = ''final_output_assembly''\<rparr>,
                     error = None, inputs = []\<rparr>],
      threads = [Thread ''a1'' [] Returned],
      handlers = []\<rparr>"
  by (simp add: succeeded_job_def init_def kickoff_def start_thread_def create_execution_def
        in_try_def in_except_def set_item_def output_of_def)

lemma succeeded_job_admissible: "admissible init succeeded_job"
  by (simp add: succeeded_job_def init_def kickoff_def start_thread_def create_execution_def)

text \<open>
  The reads of a status handler are not one step. A handler that reads the state while
  the job is RUNNING and the other fields after the worker has finished answers with
  state RUNNING and a result; one that reads SUCCESS and then, after line 86 has raised
  and the handler of the worker has run, the error answers with SUCCESS and an error.
  This is why the statements on status answers below are weaker than those on the
  entries of the registry.
\<close>

lemma torn_status_response:
  "handlers (run
     [Kickoff ''a1'' ''t0'' (KickoffRequest []),
      Worker 0 (Returns (CrewOutput (Some (Inr ''ok'')) (Inr ''obj''))) ''t1'',
      Status ''a1'', Read 0, Read 0, Read 0,
      Worker 0 (Returns (CrewOutput (Some (Inr ''ok'')) (Inr ''obj''))) ''t2'',
      Worker 0 (Returns (CrewOutput (Some (Inr ''ok'')) (Inr ''obj''))) ''t3'',
      Worker 0 (Returns (CrewOutput (Some (Inr ''ok'')) (Inr ''obj''))) ''t4'',
      Worker 0 (Returns (CrewOutput (Some (Inr ''ok'')) (Inr ''obj''))) ''t5'',
      Read 0, Read 0, Read 0, Read 0] init)
   = [Handler ''a1'' (Responded (Inr (StatusResponse ''RUNNING''
        (Some \<lparr>output_text = ''ok'', task_name = ''final_output_assembly''\<rparr>)
        (Some ''t0'') (Some ''t4'') None)))]"
  by (simp add: init_def kickoff_def start_thread_def create_execution_def
        in_try_def set_item_def read_item_def output_of_def)

lemma torn_status_response_with_error:
  "handlers (run
     [Kickoff ''a1'' ''t0'' (KickoffRequest []),
      Worker 0 (Returns (CrewOutput (Some (Inl (Exception ''bad''))) (Inr ''obj''))) ''t1'',
      Worker 0 (Returns (CrewOutput (Some (Inl (Exception ''bad''))) (Inr ''obj''))) ''t2'',
      Worker 0 (Returns (CrewOutput (Some (Inl (Exception ''bad''))) (Inr ''obj''))) ''t3'',
      Worker 0 (Returns (CrewOutput (Some (Inl (Exception ''bad''))) (Inr ''obj''))) ''t4'',
      Status ''a1'', Read 0, Read 0, Read 0,
      Worker 0 (Returns (CrewOutput (Some (Inl (Exception ''bad''))) (Inr ''obj''))) ''t5'',
      Worker 0 (Returns (CrewOutput (Some (Inl (Exception ''bad''))) (Inr ''obj''))) ''t6'',
      Worker 0 (Returns (CrewOutput (Some (Inl (Exception ''bad''))) (Inr ''obj''))) ''t7'',
      Worker 0 (Returns (CrewOutput (Some (Inl (Exception ''bad''))) (Inr ''obj''))) ''t8'',
      Read 0, Read 0, Read 0, Read 0] init)
   = [Handler ''a1'' (Responded (Inr (StatusResponse ''SUCCESS'' None
        (Some ''t0'') (Some ''t8'') (Some ''bad''))))]"
  by (simp add: init_def kickoff_def start_thread_def create_execution_def
        in_try_def in_except_def set_item_def read_item_def output_of_def)

lemma returned_record_stays:
  "registry_inv s \<Longrightarrow> admissible s evs \<Longrightarrow> i < length (threads s) \<Longrightarrow>
   threads s ! i = Thread k inp Returned \<Longrightarrow> executions s k = Some r \<Longrightarrow>
     executions (run evs s) k = Some r"
proof (induction evs arbitrary: s)
  case Nil
  then show ?case by simp
next
  case (Cons e evs)
  from Cons.prems(2) have ok: "event_ok s e" and rest: "admissible (step e s) evs"
    by simp_all
  have inv1: "registry_inv (step e s)"
    using Cons.prems(1) ok by (rule inv_step)
  have "i < length (threads (step e s)) \<and> threads (step e s) ! i = Thread k inp Returned
      \<and> executions (step e s) k = Some r"
  proof -
    from own_or_other[of e i] show ?thesis
    proof
      assume "own_steps i [e] = 0"
      from step_other[OF Cons.prems(1) ok Cons.prems(3,4) this] Cons.prems(5)
      show ?thesis by simp
    next
      assume "\<exists>oc now. e = Worker i oc now"
      then obtain oc now where e: "e = Worker i oc now" by blast
      show ?thesis
        unfolding e step_own[OF Cons.prems(3,4)]
        using Cons.prems(3,5) by (simp add: list_update_same_conv Cons.prems(4)[symmetric])
    qed
  qed
  then show ?case
    using Cons.IH[OF inv1 rest] by simp
qed

lemma worker_step_completed:
  assumes "ex k = Some r" and "run_crew_async_step oc now k pc ex = (ex', pc')"
    and "ex' k = Some r'" and "completed_at r' \<noteq> completed_at r"
  shows "((\<exists>res. pc = L84 res) \<or> (\<exists>x. pc = L93 x)) \<and> state r' = state r"
  using assms
  by (cases pc)
     (auto simp: in_try_def in_except_def set_item_def
           split: outcome.splits py_exception.splits sum.splits)

text \<open>
  Only the worker of the job writes \<^verbatim>\<open>completed_at\<close>, at line 84 or at line 93, and the
  state is terminal already when it does.
\<close>

lemma completed_at_written:
  assumes "registry_inv s" and "event_ok s e" and "executions s k = Some r"
    and "executions (step e s) k = Some r'" and "completed_at r' \<noteq> completed_at r"
  shows "(\<exists>i oc now inp pc. e = Worker i oc now \<and> i < length (threads s)
            \<and> threads s ! i = Thread k inp pc
            \<and> ((\<exists>res. pc = L84 res) \<or> (\<exists>x. pc = L93 x)))
       \<and> (state r = ''SUCCESS'' \<or> state r = ''FAILED'') \<and> state r' = state r"
proof -
  from inv_record[OF assms(1,3)] obtain j inp pc where
    j: "j < length (threads s)" "threads s ! j = Thread k inp pc" "record_at pc r" by blast
  from own_or_other[of e j] show ?thesis
  proof
    assume "own_steps j [e] = 0"
    from step_other[OF assms(1,2) j(1,2) this] assms(3,4,5) show ?thesis by simp
  next
    assume "\<exists>oc now. e = Worker j oc now"
    then obtain oc now where e: "e = Worker j oc now" by blast
    obtain ex' pc' where st: "run_crew_async_step oc now k pc (executions s) = (ex', pc')"
      by (cases "run_crew_async_step oc now k pc (executions s)") auto
    have "executions (step e s) = ex'"
      unfolding e step_own(1)[OF j(1,2)] st by simp
    with assms(4) have "ex' k = Some r'" by simp
    from worker_step_completed[OF assms(3) st this assms(5)]
    have pc: "(\<exists>res. pc = L84 res) \<or> (\<exists>x. pc = L93 x)" and same: "state r' = state r"
      by simp_all
    from pc j(3) have "state r = ''SUCCESS'' \<or> state r = ''FAILED''" by auto
    with e j(1,2) pc same show ?thesis by blast
  qed
qed

text \<open>
  When a conversion of line 86 raises, \<^verbatim>\<open>completed_at\<close> is written twice: at line 84
  and again at line 93.
\<close>

lemma completed_at_written_twice:
  "map_option completed_at (executions (run (take 5 unconvertible_job) init) ''a1'') = Some (Some ''t4'')"
  "map_option completed_at (executions (run unconvertible_job init) ''a1'') = Some (Some ''t8'')"
  by (simp_all add: unconvertible_job_def init_def kickoff_def start_thread_def
        create_execution_def in_try_def in_except_def set_item_def output_of_def)

lemma succeeded_job_thread:
  "(0::nat) < length (threads (run succeeded_job init))"
  "thread_id (threads (run succeeded_job init) ! 0) = ''a1''
     \<and> thread_pc (threads (run succeeded_job init) ! 0) = Returned"
  by (simp_all add: succeeded_job_run)



lemma unconvertible_job_run:
  "run unconvertible_job init =
     \<lparr>executions =
        [''a1'' \<mapsto> \<lparr>state = ''FAILED'', started_at = ''t0'', completed_at = Some ''t8'',
                     last_executed_task = None, error = Some ''bad'', inputs = []\<rparr>],
      threads = [Thread ''a1'' [] Returned],
      handlers = []\<rparr>"
  by (simp add: unconvertible_job_def init_def kickoff_def start_thread_def
        create_execution_def in_try_def in_except_def set_item_def output_of_def)

section \<open>The claims\<close>

text \<open>
  C1. \<^verbatim>\<open>kickoff\<close> stores the entry of the job in state PENDING, with \<^verbatim>\<open>started_at\<close>
  set and \<^verbatim>\<open>completed_at\<close>, \<^verbatim>\<open>last_executed_task\<close> and \<^verbatim>\<open>error\<close> absent, before it
  starts the worker thread (the threads are still those of before), and answers with the
  fresh identifier. After any further events a status query for that identifier passes
  the membership test and the lookup (no 404), and as long as the worker of the job has
  not got past the call of the workflow (it is at line 76 or 79) the state it reads is
  PENDING or RUNNING.
\<close>

theorem kickoff_then_status:
  assumes "admissible init (evs @ Kickoff uuid now request # evs')"
    and "s = run evs init"
    and "s' = run evs' (snd (kickoff uuid now request s))"
  shows "executions (create_execution uuid now (request_inputs request) s) uuid
           = Some \<lparr>state = ''PENDING'', started_at = now, completed_at = None,
                   last_executed_task = None, error = None, inputs = request_inputs request\<rparr>
       \<and> threads (create_execution uuid now (request_inputs request) s) = threads s
       \<and> kickoff uuid now request s =
           (KickoffResponse uuid ''PENDING'' ''Crew execution started'',
            start_thread uuid (request_inputs request)
              (create_execution uuid now (request_inputs request) s))
       \<and> uuid \<notin> set (kickoff_ids evs)
       \<and> get_status_step (executions s') uuid L161 = L164
       \<and> get_status_step (executions s') uuid L164 = L167
       \<and> (\<exists>resp pc.
             get_status (executions s') uuid = Inr resp
           \<and> get_status_step (executions s') uuid L167 = L168 (resp_state resp)
           \<and> thread_id (threads s' ! length (threads s)) = uuid
           \<and> thread_pc (threads s' ! length (threads s)) = pc
           \<and> (pc = L76 \<or> pc = L79 \<longrightarrow>
                  resp_state resp = ''PENDING'' \<or> resp_state resp = ''RUNNING''))"
proof -
  let ?n = "length (threads s)"
  have adm: "admissible init evs" "event_ok (run evs init) (Kickoff uuid now request)"
    using assms(1) unfolding admissible_append by simp_all
  then have none: "executions s uuid = None"
    unfolding assms(2) by simp
  have "dom (executions s) = set (kickoff_ids evs)"
    unfolding assms(2) using run_dom[of evs init] by (simp add: init_def)
  with none have fresh: "uuid \<notin> set (kickoff_ids evs)"
    by auto
  have "run (evs @ Kickoff uuid now request # evs') init = s'"
    unfolding assms(3) assms(2) run_append by simp
  then have whole: "s' = run (evs @ Kickoff uuid now request # evs') init"
    by simp
  have inv: "registry_inv s'"
    unfolding whole using assms(1) by (rule inv_reachable)
  have ids0: "map thread_id (threads s) = kickoff_ids evs"
    unfolding assms(2) by (rule reachable_thread_ids)
  have n: "?n = length (kickoff_ids evs)"
    using arg_cong[OF ids0, of length] by simp
  have ids: "map thread_id (threads s') = kickoff_ids evs @ uuid # kickoff_ids evs'"
    unfolding whole reachable_thread_ids kickoff_ids_append by simp
  have len: "?n < length (threads s')"
    using arg_cong[OF ids, of length] n by simp
  have tid: "thread_id (threads s' ! ?n) = uuid"
  proof -
    have "map thread_id (threads s') ! ?n = uuid"
      using ids n by (simp add: nth_append)
    then show ?thesis using len by simp
  qed
  have "thread_ok (executions s') (threads s' ! ?n)"
    using inv len by (simp add: registry_inv_def list_all_length)
  then obtain r where r: "executions s' uuid = Some r"
      "record_at (thread_pc (threads s' ! ?n)) r"
    using tid by (auto simp: thread_ok_def split: option.splits)
  have pending: "thread_pc (threads s' ! ?n) = L76 \<or> thread_pc (threads s' ! ?n) = L79 \<longrightarrow>
      state r = ''PENDING'' \<or> state r = ''RUNNING''"
    using r(2) by auto
  have c1: "executions (create_execution uuid now (request_inputs request) s) uuid
           = Some \<lparr>state = ''PENDING'', started_at = now, completed_at = None,
                   last_executed_task = None, error = None, inputs = request_inputs request\<rparr>"
    by (simp add: create_execution_def)
  have c2: "threads (create_execution uuid now (request_inputs request) s) = threads s"
    by (simp add: create_execution_def)
  have c3: "kickoff uuid now request s =
           (KickoffResponse uuid ''PENDING'' ''Crew execution started'',
            start_thread uuid (request_inputs request)
              (create_execution uuid now (request_inputs request) s))"
    by (simp add: kickoff_def)
  have c5: "get_status_step (executions s') uuid L161 = L164"
    using r(1) by simp
  have c6: "get_status_step (executions s') uuid L164 = L167"
    using r(1) by (simp add: read_item_def)
  have g: "get_status (executions s') uuid =
      Inr (StatusResponse (state r) (last_executed_task r) (Some (started_at r))
             (completed_at r) (error r))"
    using r(1) by (simp add: get_status_def)
  have c7: "get_status_step (executions s') uuid L167 = L168 (state r)"
    using r(1) by (simp add: read_item_def)
  have c8: "\<exists>resp pc.
             get_status (executions s') uuid = Inr resp
           \<and> get_status_step (executions s') uuid L167 = L168 (resp_state resp)
           \<and> thread_id (threads s' ! length (threads s)) = uuid
           \<and> thread_pc (threads s' ! length (threads s)) = pc
           \<and> (pc = L76 \<or> pc = L79 \<longrightarrow>
                  resp_state resp = ''PENDING'' \<or> resp_state resp = ''RUNNING'')"
    using g c7 tid pending by simp
  from c1 c2 c3 fresh c5 c6 c8 show ?thesis by blast
qed

theorem kickoff_then_status_witness:
  "admissible init
      ([] @ Kickoff ''b2'' ''t1'' (KickoffRequest [(''topic'', JStr ''SQL'')]) # one_job)
   \<and> get_status_step
        (executions
          (run one_job
            (snd (kickoff ''b2'' ''t1'' (KickoffRequest [(''topic'', JStr ''SQL'')]) init))))
        ''b2'' L161 = L164"
proof -
  have a: "admissible init
      ([] @ Kickoff ''b2'' ''t1'' (KickoffRequest [(''topic'', JStr ''SQL'')]) # one_job)"
    by (simp add: one_job_def init_def kickoff_def start_thread_def create_execution_def)
  have i: "init = run [] init" by simp
  have "get_status_step
        (executions
          (run one_job
            (snd (kickoff ''b2'' ''t1'' (KickoffRequest [(''topic'', JStr ''SQL'')]) init))))
        ''b2'' L161 = L164"
    using kickoff_then_status[OF a i refl] by (elim conjE)
  with a show ?thesis by (rule conjI)
qed




text \<open>
  C3, as stated, fails: the worker writes the state at line 83 and the result at line 85,
  and a status query served between the two answers SUCCESS with no result.
\<close>

theorem success_without_result_counterexample:
  "admissible init
     [Kickoff ''a1'' ''t0'' (KickoffRequest []),
      Worker 0 (Returns (CrewOutput (Some (Inr ''ok'')) (Inr ''obj''))) ''t1'',
      Worker 0 (Returns (CrewOutput (Some (Inr ''ok'')) (Inr ''obj''))) ''t2'',
      Worker 0 (Returns (CrewOutput (Some (Inr ''ok'')) (Inr ''obj''))) ''t3'']
   \<and> get_status
       (executions (run
         [Kickoff ''a1'' ''t0'' (KickoffRequest []),
          Worker 0 (Returns (CrewOutput (Some (Inr ''ok'')) (Inr ''obj''))) ''t1'',
          Worker 0 (Returns (CrewOutput (Some (Inr ''ok'')) (Inr ''obj''))) ''t2'',
          Worker 0 (Returns (CrewOutput (Some (Inr ''ok'')) (Inr ''obj''))) ''t3''] init))
       ''a1''
     = Inr (StatusResponse ''SUCCESS'' None (Some ''t0'') None None)"
  by (simp add: init_def kickoff_def start_thread_def create_execution_def
        in_try_def set_item_def get_status_def)

text \<open>
  C3, amended. In every reachable registry an entry holds a result only if its state is
  SUCCESS and an error only if its state is FAILED; so both are absent while the state
  is PENDING or RUNNING, and they are never both present. Once the worker of the job
  has returned, the result is present if and only if the state is SUCCESS and the error
  if and only if the state is FAILED. A status query run in one piece answers with the
  fields of the entry as they are; a handler whose reads are interleaved with the
  workers never answers with both a result and an error, nor with FAILED and a result.
\<close>

theorem result_and_error_follow_state:
  assumes "admissible init evs" and "s = run evs init" and "executions s k = Some r"
  shows "(last_executed_task r \<noteq> None \<longrightarrow> state r = ''SUCCESS'')
       \<and> (error r \<noteq> None \<longrightarrow> state r = ''FAILED'')
       \<and> (state r = ''PENDING'' \<or> state r = ''RUNNING''
            \<longrightarrow> last_executed_task r = None \<and> error r = None)
       \<and> \<not> (last_executed_task r \<noteq> None \<and> error r \<noteq> None)
       \<and> (\<forall>i < length (threads s).
             thread_id (threads s ! i) = k \<and> thread_pc (threads s ! i) = Returned \<longrightarrow>
               (last_executed_task r \<noteq> None \<longleftrightarrow> state r = ''SUCCESS'')
             \<and> (error r \<noteq> None \<longleftrightarrow> state r = ''FAILED''))
       \<and> get_status (executions s) k =
           Inr (StatusResponse (state r) (last_executed_task r) (Some (started_at r))
                  (completed_at r) (error r))
       \<and> (\<forall>i < length (handlers s). \<forall>resp.
             handler_pc (handlers s ! i) = Responded (Inr resp) \<longrightarrow> response_ok resp)"
proof -
  have inv: "registry_inv s"
    unfolding assms(2) using assms(1) by (rule inv_reachable)
  have hinv: "handlers_inv s"
    unfolding assms(2) using assms(1) by (rule handlers_inv_reachable)
  from inv_record[OF inv assms(3)] obtain pc where pc: "record_at pc r" by blast
  have c1: "last_executed_task r \<noteq> None \<longrightarrow> state r = ''SUCCESS''"
    using pc by (auto dest: record_at_task)
  have c2: "error r \<noteq> None \<longrightarrow> state r = ''FAILED''"
    using pc by (auto dest: record_at_error)
  have c3: "state r = ''PENDING'' \<or> state r = ''RUNNING''
            \<longrightarrow> last_executed_task r = None \<and> error r = None"
    using c1 c2 by auto
  have c4: "\<not> (last_executed_task r \<noteq> None \<and> error r \<noteq> None)"
    using c1 c2 by auto
  have c5: "\<forall>i < length (threads s).
             thread_id (threads s ! i) = k \<and> thread_pc (threads s ! i) = Returned \<longrightarrow>
               (last_executed_task r \<noteq> None \<longleftrightarrow> state r = ''SUCCESS'')
             \<and> (error r \<noteq> None \<longleftrightarrow> state r = ''FAILED'')"
  proof (intro allI impI)
    fix i assume i: "i < length (threads s)"
      and t: "thread_id (threads s ! i) = k \<and> thread_pc (threads s ! i) = Returned"
    have "thread_ok (executions s) (threads s ! i)"
      using inv i by (simp add: registry_inv_def list_all_length)
    with t assms(3) have "record_at Returned r"
      by (simp add: thread_ok_def)
    then show "(last_executed_task r \<noteq> None \<longleftrightarrow> state r = ''SUCCESS'')
             \<and> (error r \<noteq> None \<longleftrightarrow> state r = ''FAILED'')"
      by (auto split: if_splits)
  qed
  have c6: "get_status (executions s) k =
           Inr (StatusResponse (state r) (last_executed_task r) (Some (started_at r))
                  (completed_at r) (error r))"
    using assms(3) by (simp add: get_status_def)
  have c7: "\<forall>i < length (handlers s). \<forall>resp.
             handler_pc (handlers s ! i) = Responded (Inr resp) \<longrightarrow> response_ok resp"
  proof (intro allI impI)
    fix i resp assume i: "i < length (handlers s)"
      and h: "handler_pc (handlers s ! i) = Responded (Inr resp)"
    have ok: "handler_ok (executions s) (handlers s ! i)"
      using hinv i by (simp add: handlers_inv_def list_all_length)
    obtain k' where "handlers s ! i = Handler k' (Responded (Inr resp))"
      using h by (cases "handlers s ! i") auto
    with ok show "response_ok resp" by simp
  qed
  from c1 c2 c3 c4 c5 c6 c7 show ?thesis by (intro conjI)
qed

theorem result_and_error_follow_state_witness:
  "admissible init succeeded_job
   \<and> executions (run succeeded_job init) ''a1'' =
       Some \<lparr>state = ''SUCCESS'', started_at = ''t0'', completed_at = Some ''t4'',
             last_executed_task =
               Some \<lparr>output_text = ''ok'', task_name = ''final_output_assembly''\<rparr>,
             error = None, inputs = []\<rparr>
   \<and> get_status (executions (run succeeded_job init)) ''a1'' =
       Inr (StatusResponse ''SUCCESS''
              (Some \<lparr>output_text = ''ok'', task_name = ''final_output_assembly''\<rparr>)
              (Some ''t0'') (Some ''t4'') None)"
proof -
  have r: "executions (run succeeded_job init) ''a1'' =
       Some \<lparr>state = ''SUCCESS'', started_at = ''t0'', completed_at = Some ''t4'',
             last_executed_task =
               Some \<lparr>output_text = ''ok'', task_name = ''final_output_assembly''\<rparr>,
             error = None, inputs = []\<rparr>"
    by (simp add: succeeded_job_run)
  have "get_status (executions (run succeeded_job init)) ''a1'' =
       Inr (StatusResponse ''SUCCESS''
              (Some \<lparr>output_text = ''ok'', task_name = ''final_output_assembly''\<rparr>)
              (Some ''t0'') (Some ''t4'') None)"
    using result_and_error_follow_state[OF succeeded_job_admissible refl r] by simp
  with succeeded_job_admissible r show ?thesis by (intro conjI)
qed

text \<open>
  C4. When the call of the workflow (lines 79 and 80) raises an \<^verbatim>\<open>Exception\<close> with
  description \<open>m\<close>, then whatever else happens in the process the worker stays inside
  its handler or returns (the exception never leaves \<^verbatim>\<open>run_crew_async\<close>); after its three
  handler statements it has returned, the entry of the job has state FAILED and error
  \<open>m\<close>, no result, and \<^verbatim>\<open>completed_at\<close> set, and that is what a status query answers.
  The answer of \<^verbatim>\<open>kickoff\<close> to the submitter is PENDING whatever the workflow does later.
\<close>

theorem workflow_error_is_recorded:
  assumes "admissible init evs" and "s = run evs init"
    and "i < length (threads s)" and "threads s ! i = Thread k inp L79"
    and "admissible s (Worker i (Raises (Exception m)) now # evs')"
    and "s' = run (Worker i (Raises (Exception m)) now # evs') s"
  shows "thread_pc (threads s' ! i)
           \<in> {L91 (Exception m), L92 (Exception m), L93 (Exception m), Returned}
       \<and> (3 \<le> own_steps i evs' \<longrightarrow>
             thread_pc (threads s' ! i) = Returned
           \<and> (\<exists>r. executions s' k = Some r \<and> state r = ''FAILED'' \<and> error r = Some m
                  \<and> last_executed_task r = None \<and> completed_at r \<noteq> None)
           \<and> (\<exists>sa ca. get_status (executions s') k
                  = Inr (StatusResponse ''FAILED'' None sa ca (Some m))))
       \<and> fst (kickoff uuid t request s0)
           = KickoffResponse uuid ''PENDING'' ''Crew execution started''"
proof -
  let ?oc = "Raises (Exception m)"
  note run = call_then_run[OF assms]
  then have pc: "thread_pc (threads s' ! i) = after_call ?oc (own_steps i evs')"
    by simp
  have c1: "thread_pc (threads s' ! i)
           \<in> {L91 (Exception m), L92 (Exception m), L93 (Exception m), Returned}"
    unfolding pc by (rule after_call_pcs)
  have c2: "3 \<le> own_steps i evs' \<longrightarrow>
             thread_pc (threads s' ! i) = Returned
           \<and> (\<exists>r. executions s' k = Some r \<and> state r = ''FAILED'' \<and> error r = Some m
                  \<and> last_executed_task r = None \<and> completed_at r \<noteq> None)
           \<and> (\<exists>sa ca. get_status (executions s') k
                  = Inr (StatusResponse ''FAILED'' None sa ca (Some m)))"
  proof
    assume three: "3 \<le> own_steps i evs'"
    then have ret: "after_call ?oc (own_steps i evs') = Returned"
      by (rule after_call_Returned)
    with run obtain r where r: "executions s' k = Some r" "final_record ?oc r"
      by blast
    from r(2) have fr: "state r = ''FAILED''" "error r = Some m"
        "last_executed_task r = None" "completed_at r \<noteq> None"
      by (simp_all add: failed_record_def)
    have "get_status (executions s') k
        = Inr (StatusResponse ''FAILED'' None (Some (started_at r)) (completed_at r) (Some m))"
      using r(1) fr by (simp add: get_status_def)
    then have "\<exists>sa ca. get_status (executions s') k
                  = Inr (StatusResponse ''FAILED'' None sa ca (Some m))"
      by blast
    with pc ret r(1) fr show "thread_pc (threads s' ! i) = Returned
           \<and> (\<exists>r. executions s' k = Some r \<and> state r = ''FAILED'' \<and> error r = Some m
                  \<and> last_executed_task r = None \<and> completed_at r \<noteq> None)
           \<and> (\<exists>sa ca. get_status (executions s') k
                  = Inr (StatusResponse ''FAILED'' None sa ca (Some m)))"
      by simp
  qed
  have c3: "fst (kickoff uuid t request s0)
           = KickoffResponse uuid ''PENDING'' ''Crew execution started''"
    by (simp add: kickoff_def)
  from c1 c2 c3 show ?thesis by (intro conjI)
qed

theorem workflow_error_is_recorded_witness:
  "admissible init started_job
   \<and> threads (run started_job init) ! 0 = Thread ''a1'' [] L79
   \<and> 3 \<le> own_steps 0 three_steps
   \<and> thread_pc (threads
         (run (Worker 0 (Raises (Exception ''boom'')) ''t2'' # three_steps)
            (run started_job init)) ! 0) = Returned
   \<and> (\<exists>r. executions
           (run (Worker 0 (Raises (Exception ''boom'')) ''t2'' # three_steps)
              (run started_job init)) ''a1'' = Some r
         \<and> state r = ''FAILED'' \<and> error r = Some ''boom''
         \<and> last_executed_task r = None \<and> completed_at r \<noteq> None)
   \<and> (\<exists>sa ca. get_status
         (executions (run (Worker 0 (Raises (Exception ''boom'')) ''t2'' # three_steps)
            (run started_job init))) ''a1''
         = Inr (StatusResponse ''FAILED'' None sa ca (Some ''boom'')))"
proof -
  have "3 \<le> own_steps 0 three_steps \<longrightarrow>
     thread_pc (threads
         (run (Worker 0 (Raises (Exception ''boom'')) ''t2'' # three_steps)
            (run started_job init)) ! 0) = Returned
   \<and> (\<exists>r. executions
           (run (Worker 0 (Raises (Exception ''boom'')) ''t2'' # three_steps)
              (run started_job init)) ''a1'' = Some r
         \<and> state r = ''FAILED'' \<and> error r = Some ''boom''
         \<and> last_executed_task r = None \<and> completed_at r \<noteq> None)
   \<and> (\<exists>sa ca. get_status
         (executions (run (Worker 0 (Raises (Exception ''boom'')) ''t2'' # three_steps)
            (run started_job init))) ''a1''
         = Inr (StatusResponse ''FAILED'' None sa ca (Some ''boom'')))"
    by (rule conjunct1[OF conjunct2[OF workflow_error_is_recorded
      [OF started_job_admissible refl started_job_thread
          three_steps_admissible[where oc = "Raises (Exception ''boom'')" and now = "''t2''"]
          refl]]])
  then have "thread_pc (threads
         (run (Worker 0 (Raises (Exception ''boom'')) ''t2'' # three_steps)
            (run started_job init)) ! 0) = Returned
   \<and> (\<exists>r. executions
           (run (Worker 0 (Raises (Exception ''boom'')) ''t2'' # three_steps)
              (run started_job init)) ''a1'' = Some r
         \<and> state r = ''FAILED'' \<and> error r = Some ''boom''
         \<and> last_executed_task r = None \<and> completed_at r \<noteq> None)
   \<and> (\<exists>sa ca. get_status
         (executions (run (Worker 0 (Raises (Exception ''boom'')) ''t2'' # three_steps)
            (run started_job init))) ''a1''
         = Inr (StatusResponse ''FAILED'' None sa ca (Some ''boom'')))"
    using three_steps_own by (rule mp)
  with started_job_admissible started_job_thread(2) three_steps_own
  show ?thesis by (intro conjI) (elim conjE, assumption)+
qed

text \<open>
  C5, as stated, fails: the worker writes the state at line 91 and \<^verbatim>\<open>completed_at\<close> at
  line 93 (at lines 83 and 84 on success); in between the state is terminal and
  \<^verbatim>\<open>completed_at\<close> is absent.
\<close>

theorem failed_without_completed_at_counterexample:
  "admissible init
     [Kickoff ''a1'' ''t0'' (KickoffRequest []),
      Worker 0 (Raises (Exception ''boom'')) ''t1'',
      Worker 0 (Raises (Exception ''boom'')) ''t2'',
      Worker 0 (Raises (Exception ''boom'')) ''t3'']
   \<and> executions (run
         [Kickoff ''a1'' ''t0'' (KickoffRequest []),
          Worker 0 (Raises (Exception ''boom'')) ''t1'',
          Worker 0 (Raises (Exception ''boom'')) ''t2'',
          Worker 0 (Raises (Exception ''boom'')) ''t3''] init) ''a1''
     = Some \<lparr>state = ''FAILED'', started_at = ''t0'', completed_at = None,
             last_executed_task = None, error = None, inputs = []\<rparr>"
  by (simp add: init_def kickoff_def start_thread_def create_execution_def
        in_try_def in_except_def set_item_def)

text \<open>
  C5, amended. In every reachable registry \<^verbatim>\<open>completed_at\<close> is present only if the state
  is SUCCESS or FAILED, so it is absent while the state is PENDING or RUNNING. An event
  that changes it is a statement of the worker of that job, at line 84 or at line 93,
  run when the state is already terminal and leaving the state as it is. Once the
  worker of the job has returned, \<^verbatim>\<open>completed_at\<close> is present, the state is terminal and
  no later event changes the entry. When every output that the workflow returns
  converts to a text, a \<^verbatim>\<open>completed_at\<close> that is present keeps its value through every
  later event.
\<close>

theorem completed_at_follows_terminal_state:
  assumes "admissible init (evs @ evs')" and "s = run evs init"
    and "executions s k = Some r"
  shows "(completed_at r \<noteq> None \<longrightarrow> state r = ''SUCCESS'' \<or> state r = ''FAILED'')
       \<and> (state r = ''PENDING'' \<or> state r = ''RUNNING'' \<longrightarrow> completed_at r = None)
       \<and> (\<forall>r'. event_ok s e \<and> executions (step e s) k = Some r'
               \<and> completed_at r' \<noteq> completed_at r \<longrightarrow>
             (\<exists>i oc now inp pc. e = Worker i oc now \<and> i < length (threads s)
                \<and> threads s ! i = Thread k inp pc
                \<and> ((\<exists>res. pc = L84 res) \<or> (\<exists>x. pc = L93 x)))
             \<and> (state r = ''SUCCESS'' \<or> state r = ''FAILED'') \<and> state r' = state r)
       \<and> (\<forall>i < length (threads s).
             thread_id (threads s ! i) = k \<and> thread_pc (threads s ! i) = Returned \<longrightarrow>
               completed_at r \<noteq> None \<and> (state r = ''SUCCESS'' \<or> state r = ''FAILED'')
             \<and> executions (run (evs @ evs') init) k = Some r)
       \<and> (conversions_return (evs @ evs') \<longrightarrow>
             (\<exists>r'. executions (run (evs @ evs') init) k = Some r'
                \<and> (completed_at r \<noteq> None \<longrightarrow> completed_at r' = completed_at r)))"
proof -
  have adm: "admissible init evs" "admissible (run evs init) evs'"
    using assms(1) unfolding admissible_append by simp_all
  have inv: "registry_inv s"
    unfolding assms(2) using adm(1) by (rule inv_reachable)
  from inv_record[OF inv assms(3)] obtain pc where pc: "record_at pc r" by blast
  have c1: "completed_at r \<noteq> None \<longrightarrow> state r = ''SUCCESS'' \<or> state r = ''FAILED''"
    using pc by (auto dest: record_at_completed)
  have c2: "state r = ''PENDING'' \<or> state r = ''RUNNING'' \<longrightarrow> completed_at r = None"
    using c1 by auto
  have c3: "\<forall>r'. event_ok s e \<and> executions (step e s) k = Some r'
               \<and> completed_at r' \<noteq> completed_at r \<longrightarrow>
             (\<exists>i oc now inp pc. e = Worker i oc now \<and> i < length (threads s)
                \<and> threads s ! i = Thread k inp pc
                \<and> ((\<exists>res. pc = L84 res) \<or> (\<exists>x. pc = L93 x)))
             \<and> (state r = ''SUCCESS'' \<or> state r = ''FAILED'') \<and> state r' = state r"
  proof (intro allI impI)
    fix r' assume h: "event_ok s e \<and> executions (step e s) k = Some r'
               \<and> completed_at r' \<noteq> completed_at r"
    then have "event_ok s e" "executions (step e s) k = Some r'"
        "completed_at r' \<noteq> completed_at r" by simp_all
    with inv assms(3) show "(\<exists>i oc now inp pc. e = Worker i oc now \<and> i < length (threads s)
                \<and> threads s ! i = Thread k inp pc
                \<and> ((\<exists>res. pc = L84 res) \<or> (\<exists>x. pc = L93 x)))
             \<and> (state r = ''SUCCESS'' \<or> state r = ''FAILED'') \<and> state r' = state r"
      by (intro completed_at_written)
  qed
  have c4: "\<forall>i < length (threads s).
             thread_id (threads s ! i) = k \<and> thread_pc (threads s ! i) = Returned \<longrightarrow>
               completed_at r \<noteq> None \<and> (state r = ''SUCCESS'' \<or> state r = ''FAILED'')
             \<and> executions (run (evs @ evs') init) k = Some r"
  proof (intro allI impI)
    fix i assume i: "i < length (threads s)"
      and t: "thread_id (threads s ! i) = k \<and> thread_pc (threads s ! i) = Returned"
    have "thread_ok (executions s) (threads s ! i)"
      using inv i by (simp add: registry_inv_def list_all_length)
    with t assms(3) have "record_at Returned r"
      by (simp add: thread_ok_def)
    then have a: "completed_at r \<noteq> None \<and> (state r = ''SUCCESS'' \<or> state r = ''FAILED'')"
      by (auto split: if_splits)
    obtain inp where ti: "threads s ! i = Thread k inp Returned"
      using t by (cases "threads s ! i") auto
    have "executions (run evs' s) k = Some r"
      using inv adm(2) i ti assms(3) unfolding assms(2) by (rule returned_record_stays)
    then have "executions (run (evs @ evs') init) k = Some r"
      unfolding run_append assms(2) .
    with a show "completed_at r \<noteq> None \<and> (state r = ''SUCCESS'' \<or> state r = ''FAILED'')
             \<and> executions (run (evs @ evs') init) k = Some r"
      by simp
  qed
  have c5: "conversions_return (evs @ evs') \<longrightarrow>
             (\<exists>r'. executions (run (evs @ evs') init) k = Some r'
                \<and> (completed_at r \<noteq> None \<longrightarrow> completed_at r' = completed_at r))"
  proof
    assume "conversions_return (evs @ evs')"
    then have cvs: "conversions_return evs" "conversions_return evs'"
      by (simp_all add: conversions_return_append)
    have cl: "clean_inv s"
      unfolding assms(2) using adm(1) cvs(1) by (rule clean_reachable)
    from run_strict[OF inv cl adm(2)[folded assms(2)] cvs(2) assms(3)]
    show "\<exists>r'. executions (run (evs @ evs') init) k = Some r'
                \<and> (completed_at r \<noteq> None \<longrightarrow> completed_at r' = completed_at r)"
      unfolding run_append assms(2) by blast
  qed
  from c1 c2 c3 c4 c5 show ?thesis by (intro conjI)
qed

theorem completed_at_follows_terminal_state_witness:
  "admissible init (succeeded_job @ [Worker 0 (Raises (Exception ''late'')) ''t9''])
   \<and> executions (run succeeded_job init) ''a1'' =
       Some \<lparr>state = ''SUCCESS'', started_at = ''t0'', completed_at = Some ''t4'',
             last_executed_task =
               Some \<lparr>output_text = ''ok'', task_name = ''final_output_assembly''\<rparr>,
             error = None, inputs = []\<rparr>
   \<and> executions (run (succeeded_job @ [Worker 0 (Raises (Exception ''late'')) ''t9'']) init) ''a1'' =
       Some \<lparr>state = ''SUCCESS'', started_at = ''t0'', completed_at = Some ''t4'',
             last_executed_task =
               Some \<lparr>output_text = ''ok'', task_name = ''final_output_assembly''\<rparr>,
             error = None, inputs = []\<rparr>"
proof -
  have a: "admissible init (succeeded_job @ [Worker 0 (Raises (Exception ''late'')) ''t9''])"
    by (simp add: succeeded_job_def init_def kickoff_def start_thread_def create_execution_def)
  have r: "executions (run succeeded_job init) ''a1'' =
       Some \<lparr>state = ''SUCCESS'', started_at = ''t0'', completed_at = Some ''t4'',
             last_executed_task =
               Some \<lparr>output_text = ''ok'', task_name = ''final_output_assembly''\<rparr>,
             error = None, inputs = []\<rparr>"
    by (simp add: succeeded_job_run)
  note t = completed_at_follows_terminal_state[OF a refl r]
  have "\<forall>i < length (threads (run succeeded_job init)).
          thread_id (threads (run succeeded_job init) ! i) = ''a1''
            \<and> thread_pc (threads (run succeeded_job init) ! i) = Returned \<longrightarrow>
          completed_at \<lparr>state = ''SUCCESS'', started_at = ''t0'', completed_at = Some ''t4'',
             last_executed_task =
               Some \<lparr>output_text = ''ok'', task_name = ''final_output_assembly''\<rparr>,
             error = None, inputs = []\<rparr> \<noteq> None
          \<and> (state \<lparr>state = ''SUCCESS'', started_at = ''t0'', completed_at = Some ''t4'',
             last_executed_task =
               Some \<lparr>output_text = ''ok'', task_name = ''final_output_assembly''\<rparr>,
             error = None, inputs = []\<rparr> = ''SUCCESS''
             \<or> state \<lparr>state = ''SUCCESS'', started_at = ''t0'', completed_at = Some ''t4'',
             last_executed_task =
               Some \<lparr>output_text = ''ok'', task_name = ''final_output_assembly''\<rparr>,
             error = None, inputs = []\<rparr> = ''FAILED'')
          \<and> executions (run (succeeded_job @ [Worker 0 (Raises (Exception ''late'')) ''t9'']) init) ''a1'' =
              Some \<lparr>state = ''SUCCESS'', started_at = ''t0'', completed_at = Some ''t4'',
             last_executed_task =
               Some \<lparr>output_text = ''ok'', task_name = ''final_output_assembly''\<rparr>,
             error = None, inputs = []\<rparr>"
    by (rule conjunct1[OF conjunct2[OF conjunct2[OF conjunct2[OF t]]]])
  with succeeded_job_thread
  have "executions (run (succeeded_job @ [Worker 0 (Raises (Exception ''late'')) ''t9'']) init) ''a1'' =
       Some \<lparr>state = ''SUCCESS'', started_at = ''t0'', completed_at = Some ''t4'',
             last_executed_task =
               Some \<lparr>output_text = ''ok'', task_name = ''final_output_assembly''\<rparr>,
             error = None, inputs = []\<rparr>"
    by blast
  with a r show ?thesis by (intro conjI)
qed

text \<open>
  C6. A status query for an identifier that no \<^verbatim>\<open>kickoff\<close> of this process has
  issued fails with the HTTP error 404 and the message \<^verbatim>\<open>Execution not found\<close>: the
  handler run in one piece returns it, and served as events (the request arrives, the
  handler does the membership test of line 161) it answers with it and changes neither
  the registry nor the threads.
\<close>

theorem status_of_unknown_id_is_404:
  assumes "k \<notin> set (kickoff_ids evs)" and "s = run evs init"
  shows "get_status (executions s) k = Inl (HTTPException 404 ''Execution not found'')
       \<and> run [Status k, Read (length (handlers s))] s =
           s\<lparr>handlers := handlers s @
               [Handler k (Responded (Inl (HTTPException 404 ''Execution not found'')))]\<rparr>"
proof -
  have "dom (executions s) = set (kickoff_ids evs)"
    using run_dom[of evs init] assms(2) by (simp add: init_def)
  with assms(1) have none: "executions s k = None" by auto
  then show ?thesis by (simp add: get_status_def)
qed

theorem status_of_unknown_id_is_404_witness:
  "''b2'' \<notin> set (kickoff_ids
       [Kickoff ''a1'' ''t0'' (KickoffRequest []), Worker 0 (Raises (Exception ''boom'')) ''t1''])
   \<and> get_status
       (executions (run [Kickoff ''a1'' ''t0'' (KickoffRequest []),
                         Worker 0 (Raises (Exception ''boom'')) ''t1''] init))
       ''b2'' = Inl (HTTPException 404 ''Execution not found'')"
  using status_of_unknown_id_is_404
    [of "''b2''" "[Kickoff ''a1'' ''t0'' (KickoffRequest []),
                   Worker 0 (Raises (Exception ''boom'')) ''t1'']"]
  by simp







text \<open>
  C9. A submission is rejected, with the system unchanged (no entry, no thread, no
  identifier in the answer), if and only if the member \<^verbatim>\<open>inputs\<close> of its body is missing
  or is not a JSON object. A body whose \<^verbatim>\<open>inputs\<close> is a JSON object \<open>d\<close>, whatever \<open>d\<close>
  holds, is accepted: the answer carries the identifier and the registry holds a
  PENDING entry with \<open>d\<close> as its inputs.
\<close>

theorem malformed_payload_is_rejected:
  "(fst (post_kickoff body uuid now s) = Inl Validation_failure
      \<longleftrightarrow> inputs_field body = None
          \<or> (\<exists>v. inputs_field body = Some v \<and> (\<forall>d. v \<noteq> JObj d)))
   \<and> (fst (post_kickoff body uuid now s) = Inl Validation_failure
        \<longrightarrow> snd (post_kickoff body uuid now s) = s)
   \<and> (inputs_field body = Some (JObj d) \<longrightarrow>
        fst (post_kickoff body uuid now s)
          = Inr (KickoffResponse uuid ''PENDING'' ''Crew execution started'')
      \<and> executions (snd (post_kickoff body uuid now s)) uuid
          = Some \<lparr>state = ''PENDING'', started_at = now, completed_at = None,
                  last_executed_task = None, error = None, inputs = d\<rparr>
      \<and> threads (snd (post_kickoff body uuid now s)) = threads s @ [Thread uuid d L76])"
proof -
  have rej: "fst (post_kickoff body uuid now s) = Inl Validation_failure
      \<longleftrightarrow> parse_KickoffRequest body = None"
    by (simp add: post_kickoff_def split_beta split: option.splits)
  have "(\<forall>d. inputs_field body \<noteq> Some (JObj d))
      \<longleftrightarrow> inputs_field body = None
          \<or> (\<exists>v. inputs_field body = Some v \<and> (\<forall>d. v \<noteq> JObj d))"
    by (cases "inputs_field body") auto
  with rej have c1: "fst (post_kickoff body uuid now s) = Inl Validation_failure
      \<longleftrightarrow> inputs_field body = None
          \<or> (\<exists>v. inputs_field body = Some v \<and> (\<forall>d. v \<noteq> JObj d))"
    by (simp add: parse_KickoffRequest_None)
  have c2: "fst (post_kickoff body uuid now s) = Inl Validation_failure
        \<longrightarrow> snd (post_kickoff body uuid now s) = s"
    by (simp add: post_kickoff_def split_beta split: option.splits)
  have c3: "inputs_field body = Some (JObj d) \<longrightarrow>
        fst (post_kickoff body uuid now s)
          = Inr (KickoffResponse uuid ''PENDING'' ''Crew execution started'')
      \<and> executions (snd (post_kickoff body uuid now s)) uuid
          = Some \<lparr>state = ''PENDING'', started_at = now, completed_at = None,
                  last_executed_task = None, error = None, inputs = d\<rparr>
      \<and> threads (snd (post_kickoff body uuid now s)) = threads s @ [Thread uuid d L76]"
    by (simp add: post_kickoff_def parse_KickoffRequest_Some kickoff_def start_thread_def
          create_execution_def)
  from c1 c2 c3 show ?thesis by (intro conjI)
qed

theorem malformed_payload_is_rejected_witness:
  "inputs_field (JObj [(''inputs'', JObj [])]) = Some (JObj [])
   \<and> fst (post_kickoff (JObj [(''inputs'', JObj [])]) ''a1'' ''t0'' init)
       = Inr (KickoffResponse ''a1'' ''PENDING'' ''Crew execution started'')
   \<and> inputs_field (JObj [(''inputs'', JArr [])]) = Some (JArr [])
   \<and> fst (post_kickoff (JObj [(''inputs'', JArr [])]) ''a1'' ''t0'' init) = Inl Validation_failure
   \<and> snd (post_kickoff (JObj [(''inputs'', JArr [])]) ''a1'' ''t0'' init) = init"
proof -
  have a: "inputs_field (JObj [(''inputs'', JObj [])]) = Some (JObj [])"
    by (simp add: inputs_field_def)
  have b: "inputs_field (JObj [(''inputs'', JArr [])]) = Some (JArr [])"
    by (simp add: inputs_field_def)
  have "fst (post_kickoff (JObj [(''inputs'', JObj [])]) ''a1'' ''t0'' init)
       = Inr (KickoffResponse ''a1'' ''PENDING'' ''Crew execution started'')"
    using malformed_payload_is_rejected
      [of "JObj [(''inputs'', JObj [])]" "''a1''" "''t0''" init "[]"] a
    by simp
  moreover have r: "fst (post_kickoff (JObj [(''inputs'', JArr [])]) ''a1'' ''t0'' init)
       = Inl Validation_failure"
    using malformed_payload_is_rejected
      [of "JObj [(''inputs'', JArr [])]" "''a1''" "''t0''" init "[]"] b
    by simp
  moreover have "snd (post_kickoff (JObj [(''inputs'', JArr [])]) ''a1'' ''t0'' init) = init"
    using malformed_payload_is_rejected
      [of "JObj [(''inputs'', JArr [])]" "''a1''" "''t0''" init "[]"] r
    by simp
  ultimately show ?thesis using a b by (intro conjI)
qed

end
